theory Spec2Isabelle
  imports Complex_Main "HOL-Library.Word"
begin

section \<open>Tile proxy (server.js): data model\<close>

text \<open>
  A raw tile is a Node \<open>Buffer\<close>: a sequence of bytes, four per pixel (R, G, B, A).
  Reading an index past the end gives \<open>undefined\<close> (here \<open>None\<close>); storing past the
  end is ignored, which is what \<open>list_update\<close> does. Storing a number into the buffer
  keeps it modulo 256 (\<open>word_of_int\<close>).

  JavaScript numbers that hold integers are modelled as \<open>int\<close>. The interpolation
  branch computes with \<open>Math.sqrt\<close>, a division and \<open>Math.round\<close>; these are modelled
  over the real numbers.
\<close>

type_synonym byte = "8 word"
type_synonym buffer = "byte list"
type_synonym rgb = "int \<times> int \<times> int"

record colorMapping =
  src :: rgb
  dst :: rgb

text \<open>
  A JavaScript number as it can occur in the parsed hide set: not-a-number, a finite
  value, or one of the infinities. \<open>Set.prototype.has\<close> compares with SameValueZero, under
  which the two zeros are the same value, so one \<open>Fin 0\<close> stands for both.
\<close>

datatype jsnum = NaN | Fin rat | PosInf | NegInf

text \<open>The \<open>hideSet\<close> argument: \<open>null\<close> or a \<open>Set\<close> of numbers.\<close>

type_synonym hideSet = "jsnum set option"

datatype js_error = TypeError | CodecError

definition COLOR_MAP :: "colorMapping list" where
  "COLOR_MAP =
    [\<lparr>src = (0x00, 0x80, 0x00), dst = (0x34, 0xa8, 0x53)\<rparr>,
     \<lparr>src = (0x00, 0x00, 0xff), dst = (0x42, 0x85, 0xf4)\<rparr>,
     \<lparr>src = (0xff, 0xff, 0x00), dst = (0xfb, 0xbc, 0x04)\<rparr>,
     \<lparr>src = (0xff, 0xa5, 0x00), dst = (0xe8, 0x71, 0x0a)\<rparr>,
     \<lparr>src = (0x8a, 0x2b, 0xe2), dst = (0x9c, 0x6a, 0xde)\<rparr>,
     \<lparr>src = (0x3a, 0xe5, 0xee), dst = (0x4e, 0xb8, 0xc4)\<rparr>,
     \<lparr>src = (0x4b, 0x3b, 0x30), dst = (0x8a, 0x7b, 0x6e)\<rparr>]"

definition DESIG_COLORS :: "rgb list" where
  "DESIG_COLORS =
    [(0xbf, 0x40, 0x2e),
     (0x11, 0x41, 0xaf),
     (0xa0, 0xcc, 0x17),
     (0xff, 0xc2, 0x1e)]"

section \<open>Pixel transformer\<close>

definition rd :: "buffer \<Rightarrow> nat \<Rightarrow> byte option" where
  "rd data k = (if k < length data then Some (data ! k) else None)"

definition sqDist :: "rgb \<Rightarrow> rgb \<Rightarrow> int" where
  "sqDist p c =
     (case p of (r, g, b) \<Rightarrow> case c of (c0, c1, c2) \<Rightarrow>
        let dr = r - c0; dg = g - c1; db = b - c2
        in dr * dr + dg * dg + db * db)"

text \<open>
  The inner loop \<open>for (j = 0; j < palette.length; j++)\<close>. The state is
  \<open>(bestIdx, bestDist)\<close>, with \<open>None\<close> for the initial \<open>Infinity\<close>; a colour replaces
  the best one only when it is strictly closer.
\<close>

fun closestFrom :: "rgb list \<Rightarrow> rgb \<Rightarrow> nat \<Rightarrow> int \<times> int option \<Rightarrow> int \<times> int option" where
  "closestFrom [] p j best = best"
| "closestFrom (c # cs) p j (bestIdx, bestDist) =
     (let dist = sqDist p c
      in if (case bestDist of None \<Rightarrow> True | Some bd \<Rightarrow> dist < bd)
         then closestFrom cs p (Suc j) (int j, Some dist)
         else closestFrom cs p (Suc j) (bestIdx, bestDist))"

definition closest :: "rgb list \<Rightarrow> rgb \<Rightarrow> int \<times> int option" where
  "closest palette p = closestFrom palette p 0 (-1, None)"

definition has :: "jsnum set \<Rightarrow> int \<Rightarrow> bool" where
  "has hs idx = (Fin (of_int idx) \<in> hs)"

definition js_round :: "real \<Rightarrow> int" where
  "js_round x = \<lfloor>x + 1 / 2\<rfloor>"

definition blend :: "int \<Rightarrow> real" where
  "blend bestDist = max 0 (1 - sqrt (real_of_int bestDist) / 110)"

definition interp :: "int \<Rightarrow> int \<Rightarrow> int \<Rightarrow> real \<Rightarrow> int" where
  "interp x d s t = js_round (real_of_int x + real_of_int (d - s) * t)"

text \<open>
  The body of the loop of \<open>remapPixels\<close> for the pixel that starts at byte \<open>i\<close>.
  When one of the three colour reads is \<open>undefined\<close> every distance is \<open>NaN\<close>, no
  comparison succeeds, \<open>bestDist\<close> stays \<open>Infinity\<close> and nothing is written.
\<close>

definition remapBody :: "hideSet \<Rightarrow> buffer \<Rightarrow> nat \<Rightarrow> buffer" where
  "remapBody hideSet data i =
     (if rd data (i + 3) = Some 0 then data
      else case (rd data i, rd data (i + 1), rd data (i + 2)) of
        (Some r, Some g, Some b) \<Rightarrow>
          (case closest (map src COLOR_MAP) (uint r, uint g, uint b) of
             (bestIdx, Some bestDist) \<Rightarrow>
               if bestDist < 12000 then
                 if (case hideSet of None \<Rightarrow> False | Some hs \<Rightarrow> has hs bestIdx)
                 then data[i + 3 := 0]
                 else
                   (case dst (COLOR_MAP ! nat bestIdx) of (d0, d1, d2) \<Rightarrow>
                    case src (COLOR_MAP ! nat bestIdx) of (s0, s1, s2) \<Rightarrow>
                      if bestDist = 0
                      then data[i := word_of_int d0, i + 1 := word_of_int d1,
                                i + 2 := word_of_int d2]
                      else
                        let t = blend bestDist
                        in data[i := word_of_int (interp (uint r) d0 s0 t),
                                i + 1 := word_of_int (interp (uint g) d1 s1 t),
                                i + 2 := word_of_int (interp (uint b) d2 s2 t)])
               else data
           | (bestIdx, None) \<Rightarrow> data)
      | _ \<Rightarrow> data)"

text \<open>The loop \<open>for (let i = 0; i < len; i += 4)\<close>, with \<open>len\<close> read once.\<close>

function remapLoop :: "hideSet \<Rightarrow> nat \<Rightarrow> buffer \<Rightarrow> nat \<Rightarrow> buffer" where
  "remapLoop hideSet len data i =
     (if i < len then remapLoop hideSet len (remapBody hideSet data i) (i + 4) else data)"
  by pat_completeness auto
termination
  by (relation "measure (\<lambda>(hideSet, len, data, i). len - i)") auto

definition remapPixels :: "buffer \<Rightarrow> hideSet \<Rightarrow> buffer" where
  "remapPixels data hideSet = remapLoop hideSet (length data) data 0"

text \<open>
  The body of the loop of \<open>filterDesigPixels\<close>. \<open>hideSet.has\<close> is called without a
  null check, after \<open>bestDist < 12000\<close> has been found true: a null \<open>hideSet\<close> raises
  a \<open>TypeError\<close> there.
\<close>

definition filterBody :: "hideSet \<Rightarrow> buffer \<Rightarrow> nat \<Rightarrow> js_error + buffer" where
  "filterBody hideSet data i =
     (if rd data (i + 3) = Some 0 then Inr data
      else case (rd data i, rd data (i + 1), rd data (i + 2)) of
        (Some r, Some g, Some b) \<Rightarrow>
          (case closest DESIG_COLORS (uint r, uint g, uint b) of
             (bestIdx, Some bestDist) \<Rightarrow>
               if bestDist < 12000 then
                 (case hideSet of
                    None \<Rightarrow> Inl TypeError
                  | Some hs \<Rightarrow> if has hs bestIdx then Inr (data[i + 3 := 0]) else Inr data)
               else Inr data
           | (bestIdx, None) \<Rightarrow> Inr data)
      | _ \<Rightarrow> Inr data)"

function filterLoop :: "hideSet \<Rightarrow> nat \<Rightarrow> buffer \<Rightarrow> nat \<Rightarrow> js_error + buffer" where
  "filterLoop hideSet len data i =
     (if i < len
      then (case filterBody hideSet data i of
              Inl e \<Rightarrow> Inl e
            | Inr data' \<Rightarrow> filterLoop hideSet len data' (i + 4))
      else Inr data)"
  by pat_completeness auto
termination
  by (relation "measure (\<lambda>(hideSet, len, data, i). len - i)") auto

definition filterDesigPixels :: "buffer \<Rightarrow> hideSet \<Rightarrow> js_error + buffer" where
  "filterDesigPixels data hideSet = filterLoop hideSet (length data) data 0"

text \<open>
  \<open>isClosest pal p k\<close>: colour \<open>k\<close> of the palette has the least squared distance to
  \<open>p\<close>, and is the first one that has it.
\<close>

definition isClosest :: "rgb list \<Rightarrow> rgb \<Rightarrow> nat \<Rightarrow> bool" where
  "isClosest pal p k \<longleftrightarrow>
     k < length pal \<and>
     (\<forall>m<length pal. sqDist p (pal ! k) \<le> sqDist p (pal ! m)) \<and>
     (\<forall>m<k. sqDist p (pal ! k) < sqDist p (pal ! m))"

section \<open>Tile cache\<close>

text \<open>
  \<open>tileCache\<close> is a JavaScript \<open>Map\<close>: its keys are distinct and it keeps them in the
  order of insertion. The model is the list of its entries in that order, oldest first.
  \<open>Map.prototype.set\<close> on a key that is present replaces the value where it stands; on
  a new key it appends. \<open>Date.now()\<close> is the argument \<open>now\<close>, in milliseconds.
\<close>

record entry =
  buffer :: buffer
  timestamp :: int

type_synonym 'k tileCache = "('k \<times> entry) list"

definition TILE_CACHE_MAX :: nat where
  "TILE_CACHE_MAX = 2000"

definition TILE_CACHE_TTL :: int where
  "TILE_CACHE_TTL = 5 * 60000"

definition map_get :: "'k tileCache \<Rightarrow> 'k \<Rightarrow> entry option" where
  "map_get c key = map_of c key"

definition map_delete :: "'k tileCache \<Rightarrow> 'k \<Rightarrow> 'k tileCache" where
  "map_delete c key = filter (\<lambda>kv. fst kv \<noteq> key) c"

definition map_set :: "'k tileCache \<Rightarrow> 'k \<Rightarrow> entry \<Rightarrow> 'k tileCache" where
  "map_set c key e =
     (if key \<in> fst ` set c
      then map (\<lambda>kv. if fst kv = key then (key, e) else kv) c
      else c @ [(key, e)])"

definition getCachedTile :: "int \<Rightarrow> 'k \<Rightarrow> 'k tileCache \<Rightarrow> buffer option \<times> 'k tileCache" where
  "getCachedTile now key c =
     (case map_get c key of
        None \<Rightarrow> (None, c)
      | Some e \<Rightarrow>
          if now - timestamp e > TILE_CACHE_TTL
          then (None, map_delete c key)
          else (Some (buffer e), map_set (map_delete c key) key e))"

text \<open>
  \<open>tileCache.keys().next().value\<close> is the first key; the branch that reads it runs only
  when the map holds at least \<open>TILE_CACHE_MAX\<close> entries. On an empty map it would be
  \<open>undefined\<close>, and deleting that removes nothing.
\<close>

definition setCachedTile :: "int \<Rightarrow> 'k \<Rightarrow> buffer \<Rightarrow> 'k tileCache \<Rightarrow> 'k tileCache" where
  "setCachedTile now key buf c =
     (let c' = (if length c \<ge> TILE_CACHE_MAX
                then (case c of [] \<Rightarrow> c | (oldest, _) # _ \<Rightarrow> map_delete c oldest)
                else c)
      in map_set c' key \<lparr>buffer = buf, timestamp = now\<rparr>)"

text \<open>A sequence of cache operations, each with the clock value it reads.\<close>

datatype 'k cacheOp = Get 'k int | Put 'k buffer int

fun runOp :: "'k tileCache \<Rightarrow> 'k cacheOp \<Rightarrow> 'k tileCache" where
  "runOp c (Get key now) = snd (getCachedTile now key c)"
| "runOp c (Put key buf now) = setCachedTile now key buf c"

definition runOps :: "'k cacheOp list \<Rightarrow> 'k tileCache" where
  "runOps ops = foldl runOp [] ops"

section \<open>Strings and the \<open>hide\<close> parameter\<close>

text \<open>
  Strings are lists of 8-bit characters; code units above 255 are outside the model.
\<close>

fun startsWith :: "string \<Rightarrow> string \<Rightarrow> bool" where
  "startsWith s [] = True"
| "startsWith [] (p # ps) = False"
| "startsWith (c # cs) (p # ps) = (c = p \<and> startsWith cs ps)"

fun includes_str :: "string \<Rightarrow> string \<Rightarrow> bool" where
  "includes_str [] sub = (sub = [])"
| "includes_str (c # cs) sub = (startsWith (c # cs) sub \<or> includes_str cs sub)"

text \<open>
  \<open>String.prototype.split\<close> with a one-character separator: \<open>n\<close> separators give
  \<open>n + 1\<close> pieces, empty ones included.
\<close>

fun split_str :: "char \<Rightarrow> string \<Rightarrow> string list" where
  "split_str sep [] = [[]]"
| "split_str sep (c # cs) =
     (if c = sep then [] # split_str sep cs
      else case split_str sep cs of
             t # ts \<Rightarrow> (c # t) # ts
           | [] \<Rightarrow> [[c]])"

definition hexDigitValue :: "char \<Rightarrow> nat option" where
  "hexDigitValue c =
     (let n = (of_char c :: nat)
      in if 48 \<le> n \<and> n \<le> 57 then Some (n - 48)
         else if 65 \<le> n \<and> n \<le> 70 then Some (n - 55)
         else if 97 \<le> n \<and> n \<le> 102 then Some (n - 87)
         else None)"

text \<open>The value of a run of digits in base \<open>b\<close>; \<open>None\<close> when a character is not one.\<close>

fun radixMV :: "nat \<Rightarrow> nat \<Rightarrow> string \<Rightarrow> nat option" where
  "radixMV b acc [] = Some acc"
| "radixMV b acc (c # cs) =
     (case hexDigitValue c of
        Some v \<Rightarrow> if v < b then radixMV b (b * acc + v) cs else None
      | None \<Rightarrow> None)"

definition isDecimalDigit :: "char \<Rightarrow> bool" where
  "isDecimalDigit c \<longleftrightarrow> 48 \<le> (of_char c :: nat) \<and> (of_char c :: nat) \<le> 57"

definition isStrWhiteSpaceChar :: "char \<Rightarrow> bool" where
  "isStrWhiteSpaceChar c \<longleftrightarrow> (of_char c :: nat) \<in> {9, 10, 11, 12, 13, 32, 160}"

definition trimString :: "string \<Rightarrow> string" where
  "trimString s = rev (dropWhile isStrWhiteSpaceChar (rev (dropWhile isStrWhiteSpaceChar s)))"

text \<open>
  \<open>Number(string)\<close>, the StringToNumber grammar of ECMAScript: white space is trimmed;
  the empty string is 0; then a hexadecimal, octal or binary integer literal without
  sign, or an optionally signed \<open>Infinity\<close> or decimal literal with optional fraction and
  exponent; anything else is \<open>NaN\<close>. \<open>Fin q\<close> holds the mathematical value of the
  literal; its rounding to a double is not modelled.
\<close>

definition nonDecimalIntegerLiteral :: "string \<Rightarrow> nat option" where
  "nonDecimalIntegerLiteral s =
     (case s of
        c0 # c1 # ds \<Rightarrow>
          if c0 = CHR ''0'' \<and> ds \<noteq> [] then
            if c1 = CHR ''x'' \<or> c1 = CHR ''X'' then radixMV 16 0 ds
            else if c1 = CHR ''o'' \<or> c1 = CHR ''O'' then radixMV 8 0 ds
            else if c1 = CHR ''b'' \<or> c1 = CHR ''B'' then radixMV 2 0 ds
            else None
          else None
      | _ \<Rightarrow> None)"

definition signedInteger :: "string \<Rightarrow> int option" where
  "signedInteger s =
     (case s of
        [] \<Rightarrow> None
      | c # ds \<Rightarrow>
          if c = CHR ''+'' then (if ds = [] then None else map_option int (radixMV 10 0 ds))
          else if c = CHR ''-'' then
            (if ds = [] then None else map_option (\<lambda>n. - int n) (radixMV 10 0 ds))
          else map_option int (radixMV 10 0 s))"

definition exponentPart :: "string \<Rightarrow> int option" where
  "exponentPart s =
     (case s of
        [] \<Rightarrow> Some 0
      | c # r \<Rightarrow> if c = CHR ''e'' \<or> c = CHR ''E'' then signedInteger r else None)"

definition digitsMV :: "string \<Rightarrow> nat" where
  "digitsMV ds = (case radixMV 10 0 ds of Some n \<Rightarrow> n | None \<Rightarrow> 0)"

definition strUnsignedDecimalLiteral :: "string \<Rightarrow> jsnum" where
  "strUnsignedDecimalLiteral s =
     (if s = ''Infinity'' then PosInf
      else
        let ip = takeWhile isDecimalDigit s; r1 = dropWhile isDecimalDigit s
        in case r1 of
             c # r2 \<Rightarrow>
               if c = CHR ''.'' then
                 let fp = takeWhile isDecimalDigit r2; r3 = dropWhile isDecimalDigit r2
                 in if ip = [] \<and> fp = [] then NaN
                    else (case exponentPart r3 of
                            None \<Rightarrow> NaN
                          | Some e \<Rightarrow>
                              Fin ((of_nat (digitsMV ip) + of_nat (digitsMV fp) / 10 ^ length fp)
                                   * 10 powi e))
               else if ip = [] then NaN
               else (case exponentPart r1 of
                       None \<Rightarrow> NaN
                     | Some e \<Rightarrow> Fin (of_nat (digitsMV ip) * 10 powi e))
           | [] \<Rightarrow> if ip = [] then NaN else Fin (of_nat (digitsMV ip)))"

fun negate :: "jsnum \<Rightarrow> jsnum" where
  "negate NaN = NaN"
| "negate (Fin q) = Fin (- q)"
| "negate PosInf = NegInf"
| "negate NegInf = PosInf"

definition Number :: "string \<Rightarrow> jsnum" where
  "Number str =
     (let s = trimString str
      in case s of
           [] \<Rightarrow> Fin 0
         | c # r \<Rightarrow>
             (case nonDecimalIntegerLiteral s of
                Some n \<Rightarrow> Fin (of_nat n)
              | None \<Rightarrow>
                  if c = CHR ''+'' then strUnsignedDecimalLiteral r
                  else if c = CHR ''-'' then negate (strUnsignedDecimalLiteral r)
                  else strUnsignedDecimalLiteral s))"

text \<open>
  \<open>hideStr = parsed.searchParams.get('hide') || ''\<close> and
  \<open>hideSet = hideStr ? new Set(hideStr.split(',').map(Number)) : null\<close>.
\<close>

definition parseHide :: "string option \<Rightarrow> hideSet" where
  "parseHide hideParam =
     (let hideStr = (case hideParam of None \<Rightarrow> [] | Some v \<Rightarrow> v)
      in if hideStr \<noteq> [] then Some (set (map Number (split_str CHR '','' hideStr))) else None)"

section \<open>Request URL\<close>

text \<open>
  \<open>new URL(req.url, 'http://localhost')\<close> is the URL parser of the runtime. For a
  request target that starts with \<open>/api/\<close> it removes tabs and newlines and trailing
  controls and spaces, then reads the path up to the first \<open>?\<close> or \<open>#\<close> and the query
  from a \<open>?\<close> up to the first \<open>#\<close>. What the parser does to the text of the path
  (dot segments, escapes) and of the query (escapes) is left open: \<open>normPath\<close> and
  \<open>encQuery\<close> are parameters.

  \<open>searchParams\<close> is the list of (name, value) pairs that the
  \<open>application/x-www-form-urlencoded\<close> parser reads from the query. Names and values are
  kept as the byte strings that percent-decoding gives; their decoding as UTF-8 is not
  modelled.
\<close>

record url =
  pathname :: string
  query :: "string option"

type_synonym searchParams = "(string \<times> string) list"

definition isC0ControlOrSpace :: "char \<Rightarrow> bool" where
  "isC0ControlOrSpace c \<longleftrightarrow> (of_char c :: nat) \<le> 32"

definition isTabOrNewline :: "char \<Rightarrow> bool" where
  "isTabOrNewline c \<longleftrightarrow> (of_char c :: nat) \<in> {9, 10, 13}"

definition parseURL :: "(string \<Rightarrow> string) \<Rightarrow> (string \<Rightarrow> string) \<Rightarrow> string \<Rightarrow> url" where
  "parseURL normPath encQuery input =
     (let s0 = rev (dropWhile isC0ControlOrSpace (rev (dropWhile isC0ControlOrSpace input)));
          s = filter (\<lambda>c. \<not> isTabOrNewline c) s0;
          pathPart = takeWhile (\<lambda>c. c \<noteq> CHR ''?'' \<and> c \<noteq> CHR ''#'') s;
          rest = dropWhile (\<lambda>c. c \<noteq> CHR ''?'' \<and> c \<noteq> CHR ''#'') s
      in \<lparr>pathname = normPath pathPart,
          query = (case rest of
                     [] \<Rightarrow> None
                   | c # r \<Rightarrow> if c = CHR ''?''
                              then Some (encQuery (takeWhile (\<lambda>c. c \<noteq> CHR ''#'') r))
                              else None)\<rparr>)"

fun percentDecode :: "string \<Rightarrow> string" where
  "percentDecode (c # h1 # h2 # cs) =
     (if c = CHR ''%'' then
        (case (hexDigitValue h1, hexDigitValue h2) of
           (Some a, Some b) \<Rightarrow> char_of (16 * a + b) # percentDecode cs
         | _ \<Rightarrow> c # percentDecode (h1 # h2 # cs))
      else c # percentDecode (h1 # h2 # cs))"
| "percentDecode (c # cs) = c # percentDecode cs"
| "percentDecode [] = []"

definition decodeComponent :: "string \<Rightarrow> string" where
  "decodeComponent s = percentDecode (map (\<lambda>c. if c = CHR ''+'' then CHR '' '' else c) s)"

definition parsePair :: "string \<Rightarrow> string \<times> string" where
  "parsePair s =
     (decodeComponent (takeWhile (\<lambda>c. c \<noteq> CHR ''='') s),
      decodeComponent (drop 1 (dropWhile (\<lambda>c. c \<noteq> CHR ''='') s)))"

definition parseUrlencoded :: "string \<Rightarrow> searchParams" where
  "parseUrlencoded q = map parsePair (filter (\<lambda>s. s \<noteq> []) (split_str CHR ''&'' q))"

definition hexDigit :: "nat \<Rightarrow> char" where
  "hexDigit n = (if n < 10 then char_of (48 + n) else char_of (55 + n))"

definition isUrlencodedSafe :: "char \<Rightarrow> bool" where
  "isUrlencodedSafe c \<longleftrightarrow>
     (let n = (of_char c :: nat)
      in (48 \<le> n \<and> n \<le> 57) \<or> (65 \<le> n \<and> n \<le> 90) \<or> (97 \<le> n \<and> n \<le> 122) \<or>
         n = 42 \<or> n = 45 \<or> n = 46 \<or> n = 95)"

definition encodeByte :: "char \<Rightarrow> string" where
  "encodeByte c =
     (if c = CHR '' '' then ''+''
      else if isUrlencodedSafe c then [c]
      else [CHR ''%'', hexDigit ((of_char c :: nat) div 16), hexDigit ((of_char c :: nat) mod 16)])"

definition encodeComponent :: "string \<Rightarrow> string" where
  "encodeComponent s = concat (map encodeByte s)"

fun serializeUrlencoded :: "searchParams \<Rightarrow> string" where
  "serializeUrlencoded [] = []"
| "serializeUrlencoded [(n, v)] = encodeComponent n @ ''='' @ encodeComponent v"
| "serializeUrlencoded ((n, v) # p # ps) =
     encodeComponent n @ ''='' @ encodeComponent v @ ''&'' @ serializeUrlencoded (p # ps)"

definition searchParamsOf :: "url \<Rightarrow> searchParams" where
  "searchParamsOf u = parseUrlencoded (case query u of None \<Rightarrow> [] | Some q \<Rightarrow> q)"

definition searchParams_get :: "searchParams \<Rightarrow> string \<Rightarrow> string option" where
  "searchParams_get ps name = map_of ps name"

text \<open>
  \<open>searchParams.delete(name)\<close> removes every pair of that name and writes the list back
  into the URL: the query becomes the serialised list, or null when that is empty.
\<close>

definition searchParams_delete :: "url \<Rightarrow> string \<Rightarrow> url" where
  "searchParams_delete u name =
     (let ps = filter (\<lambda>nv. fst nv \<noteq> name) (searchParamsOf u);
          q = serializeUrlencoded ps
      in u\<lparr>query := (if q = [] then None else Some q)\<rparr>)"

definition search :: "url \<Rightarrow> string" where
  "search u = (case query u of None \<Rightarrow> [] | Some q \<Rightarrow> if q = [] then [] else CHR ''?'' # q)"

section \<open>Request handler, proxied paths\<close>

definition API_TARGET :: string where
  "API_TARGET = ''https://plownyc.cityofnewyork.us''"

record requestContext =
  hideSet :: hideSet
  cleanUrl :: string
  targetPath :: string
  targetUrl :: string
  isTileReq :: bool
  isPlowTile :: bool
  isDesigTile :: bool

text \<open>Lines 169 to 180 of the handler: what is derived from \<open>req.url\<close>.\<close>

definition classify :: "(string \<Rightarrow> string) \<Rightarrow> (string \<Rightarrow> string) \<Rightarrow> string \<Rightarrow> requestContext" where
  "classify normPath encQuery reqUrl =
     (let parsed = parseURL normPath encQuery reqUrl;
          hs = parseHide (searchParams_get (searchParamsOf parsed) ''hide'');
          parsed' = searchParams_delete parsed ''hide'';
          cu = pathname parsed' @ search parsed';
          tp = ''/mappingapi'' @ cu;
          tile = includes_str tp ''highlight'' \<and> \<not> includes_str tp ''active'' \<and>
                 \<not> includes_str tp ''info'';
          plow = tile \<and> includes_str tp ''VISITED''
      in \<lparr>hideSet = hs, cleanUrl = cu, targetPath = tp, targetUrl = API_TARGET @ tp,
          isTileReq = tile, isPlowTile = plow, isDesigTile = tile \<and> \<not> plow\<rparr>)"

text \<open>
  The image library (\<open>sharp\<close>) is outside the program: \<open>decode\<close> stands for reading the
  metadata and the raw RGBA bytes of an encoded tile, \<open>encode\<close> for writing a PNG from raw
  bytes; each may fail.
\<close>

record codec =
  decode :: "buffer \<Rightarrow> js_error + (nat \<times> nat \<times> buffer)"
  encode :: "nat \<Rightarrow> nat \<Rightarrow> buffer \<Rightarrow> js_error + buffer"

definition remapTile :: "codec \<Rightarrow> buffer \<Rightarrow> hideSet \<Rightarrow> js_error + buffer" where
  "remapTile cd inputBuffer hs =
     (case decode cd inputBuffer of
        Inl e \<Rightarrow> Inl e
      | Inr (width, height, raw) \<Rightarrow> encode cd width height (remapPixels raw hs))"

definition filterDesigTile :: "codec \<Rightarrow> buffer \<Rightarrow> hideSet \<Rightarrow> js_error + buffer" where
  "filterDesigTile cd inputBuffer hs =
     (case decode cd inputBuffer of
        Inl e \<Rightarrow> Inl e
      | Inr (width, height, raw) \<Rightarrow>
          (case filterDesigPixels raw hs of
             Inl e \<Rightarrow> Inl e
           | Inr raw' \<Rightarrow> encode cd width height raw'))"

text \<open>The body of the two \<open>try\<close> blocks: which transform a tile gets.\<close>

definition transformTile :: "codec \<Rightarrow> requestContext \<Rightarrow> buffer \<Rightarrow> js_error + buffer" where
  "transformTile cd ctx buf =
     (if isPlowTile ctx then remapTile cd buf (hideSet ctx)
      else if (case hideSet ctx of None \<Rightarrow> False | Some hs \<Rightarrow> hs \<noteq> {})
      then filterDesigTile cd buf (hideSet ctx)
      else Inr buf)"

record proxyRes =
  statusCode :: int
  contentTypeHeader :: "string option"
  cacheControlHeader :: "string option"
  chunks :: "buffer list"

datatype upstream = ProxyError | ProxyResponse proxyRes

record response =
  status :: int
  headers :: "(string \<times> string) list"
  body :: buffer

definition orElse :: "string option \<Rightarrow> string \<Rightarrow> string" where
  "orElse h d = (case h of None \<Rightarrow> d | Some v \<Rightarrow> if v = [] then d else v)"

text \<open>The callback of \<open>https.get\<close> (lines 211 to 264), with the clock read by the cache.\<close>

definition onProxyRes ::
  "codec \<Rightarrow> requestContext \<Rightarrow> int \<Rightarrow> proxyRes \<Rightarrow> string tileCache \<Rightarrow> response \<times> string tileCache" where
  "onProxyRes cd ctx now pr cache =
     (if isTileReq ctx \<and>
         (statusCode pr = 204 \<or> \<not> includes_str (orElse (contentTypeHeader pr) []) ''image'')
      then (\<lparr>status = 404,
             headers = [(''Content-Type'', ''text/plain''), (''Access-Control-Allow-Origin'', ''*'')],
             body = []\<rparr>, cache)
      else if (isPlowTile ctx \<or> isDesigTile ctx) \<and> statusCode pr = 200 then
        (let inputBuf = concat (chunks pr);
             cache' = setCachedTile now (cleanUrl ctx) inputBuf cache
         in case transformTile cd ctx inputBuf of
              Inr outputBuf \<Rightarrow>
                (\<lparr>status = 200,
                  headers = [(''Content-Type'', ''image/png''),
                             (''Cache-Control'', ''public, max-age=300''),
                             (''Access-Control-Allow-Origin'', ''*'')],
                  body = outputBuf\<rparr>, cache')
            | Inl e \<Rightarrow>
                (\<lparr>status = 200,
                  headers = [(''Content-Type'', orElse (contentTypeHeader pr) ''image/png''),
                             (''Access-Control-Allow-Origin'', ''*'')],
                  body = inputBuf\<rparr>, cache'))
      else (\<lparr>status = statusCode pr,
             headers = [(''Content-Type'',
                           orElse (contentTypeHeader pr) ''application/octet-stream''),
                        (''Cache-Control'', orElse (cacheControlHeader pr) ''no-cache''),
                        (''Access-Control-Allow-Origin'', ''*'')],
             body = concat (chunks pr)\<rparr>, cache))"

text \<open>
  The branch \<open>req.url.startsWith('/api/')\<close> of the handler. \<open>now1\<close> is the clock when the
  cache is probed, \<open>now2\<close> when the upstream body has arrived; \<open>up\<close> is what the upstream
  request yields. Requests that are not under \<open>/api/\<close> are not modelled (\<open>None\<close>).
\<close>

definition handleApi ::
  "(string \<Rightarrow> string) \<Rightarrow> (string \<Rightarrow> string) \<Rightarrow> codec \<Rightarrow> int \<Rightarrow> int \<Rightarrow> string \<Rightarrow> upstream \<Rightarrow>
   string tileCache \<Rightarrow> (response \<times> string tileCache) option" where
  "handleApi normPath encQuery cd now1 now2 reqUrl up cache =
     (if startsWith reqUrl ''/api/'' then
        (let ctx = classify normPath encQuery reqUrl;
             probe = (if isPlowTile ctx \<or> isDesigTile ctx
                      then getCachedTile now1 (cleanUrl ctx) cache
                      else (None, cache))
         in case probe of
              (Some rawCached, cache1) \<Rightarrow>
                (case transformTile cd ctx rawCached of
                   Inr outputBuf \<Rightarrow>
                     Some (\<lparr>status = 200,
                            headers = [(''Content-Type'', ''image/png''),
                                       (''Cache-Control'', ''public, max-age=300''),
                                       (''Access-Control-Allow-Origin'', ''*'')],
                            body = outputBuf\<rparr>, cache1)
                 | Inl e \<Rightarrow>
                     Some (\<lparr>status = 200,
                            headers = [(''Content-Type'', ''image/png''),
                                       (''Access-Control-Allow-Origin'', ''*'')],
                            body = rawCached\<rparr>, cache1))
            | (None, cache1) \<Rightarrow>
                (case up of
                   ProxyResponse pr \<Rightarrow> Some (onProxyRes cd ctx now2 pr cache1)
                 | ProxyError \<Rightarrow>
                     Some (\<lparr>status = 502,
                            headers = [(''Content-Type'', ''application/json''),
                                       (''Access-Control-Allow-Origin'', ''*'')],
                            body = map (\<lambda>c. of_nat (of_char c)) ''{\"error\":\"Proxy error\"}''\<rparr>,
                           cache1)))
      else None)"

text \<open>One serialised pair, \<open>name=value\<close>, as \<open>serializeUrlencoded\<close> writes it.\<close>

definition pairText :: "string \<times> string \<Rightarrow> string" where
  "pairText nv = encodeComponent (fst nv) @ ''='' @ encodeComponent (snd nv)"


section \<open>Nearest-colour classification\<close>

declare remapLoop.simps [simp del]
declare filterLoop.simps [simp del]

lemma isClosest_snoc_keep:
  assumes "isClosest pre p k" and "\<not> sqDist p c < sqDist p (pre ! k)"
  shows "isClosest (pre @ [c]) p k"
  using assms by (auto simp add: isClosest_def nth_append less_Suc_eq)

lemma isClosest_snoc_new:
  assumes "isClosest pre p k" and "sqDist p c < sqDist p (pre ! k)"
  shows "isClosest (pre @ [c]) p (length pre)"
  using assms by (fastforce simp add: isClosest_def nth_append less_Suc_eq)

lemma closestFrom_isClosest:
  "isClosest pre p k \<Longrightarrow>
   \<exists>k'. isClosest (pre @ cs) p k' \<and>
     closestFrom cs p (length pre) (int k, Some (sqDist p (pre ! k)))
       = (int k', Some (sqDist p ((pre @ cs) ! k')))"
proof (induction cs arbitrary: pre k)
  case Nil
  then show ?case by auto
next
  case (Cons c cs)
  show ?case
  proof (cases "sqDist p c < sqDist p (pre ! k)")
    case True
    have "isClosest (pre @ [c]) p (length pre)"
      using Cons.prems True by (rule isClosest_snoc_new)
    from Cons.IH [OF this] True show ?thesis by (simp add: Let_def)
  next
    case False
    have k: "k < length pre" using Cons.prems by (simp add: isClosest_def)
    have "isClosest (pre @ [c]) p k"
      using Cons.prems False by (rule isClosest_snoc_keep)
    from Cons.IH [OF this] False k show ?thesis by (simp add: Let_def nth_append)
  qed
qed

lemma closest_isClosest:
  assumes "pal \<noteq> []"
  shows "\<exists>k. isClosest pal p k \<and> closest pal p = (int k, Some (sqDist p (pal ! k)))"
proof -
  obtain c cs where pal: "pal = c # cs" using assms by (cases pal) auto
  have "isClosest [c] p 0" by (simp add: isClosest_def)
  from closestFrom_isClosest [OF this, of cs] show ?thesis
    by (simp add: closest_def pal Let_def)
qed

lemma closest_Nil: "closest [] p = (-1, None)"
  by (simp add: closest_def)

section \<open>The pixel loops touch one pixel at a time\<close>

lemma length_remapBody: "length (remapBody hs d i) = length d"
  by (simp add: remapBody_def Let_def split: option.splits prod.splits)

lemma remapBody_frame: "k < i \<or> i + 4 \<le> k \<Longrightarrow> remapBody hs d i ! k = d ! k"
  by (auto simp add: remapBody_def Let_def split: option.splits prod.splits)

lemma remapBody_local:
  assumes "length d' = length d" and "\<And>c. c < 4 \<Longrightarrow> d' ! (i + c) = d ! (i + c)"
    and "i + 3 < length d" and "c < 4"
  shows "remapBody hs d' i ! (i + c) = remapBody hs d i ! (i + c)"
proof -
  have e: "d' ! i = d ! i" "d' ! (i + 1) = d ! (i + 1)" "d' ! (i + 2) = d ! (i + 2)"
    "d' ! (i + 3) = d ! (i + 3)"
    using assms(2) [of 0] assms(2) [of 1] assms(2) [of 2] assms(2) [of 3] by simp_all
  have r: "rd d' i = rd d i" "rd d' (i + 1) = rd d (i + 1)" "rd d' (i + 2) = rd d (i + 2)"
    "rd d' (i + 3) = rd d (i + 3)"
    using e assms(1,3) by (simp_all add: rd_def)
  have c: "c = 0 \<or> c = 1 \<or> c = 2 \<or> c = 3" using assms(4) by arith
  show ?thesis
    unfolding remapBody_def r using c e assms(1,3)
    by (auto simp add: Let_def rd_def split: option.splits prod.splits)
qed

lemma length_remapLoop: "length (remapLoop hs len d i) = length d"
proof (induction hs len d i rule: remapLoop.induct)
  case (1 hs len d i)
  then show ?case by (subst remapLoop.simps) (simp add: length_remapBody)
qed

lemma remapLoop_below: "k < i \<Longrightarrow> remapLoop hs len d i ! k = d ! k"
proof (induction hs len d i rule: remapLoop.induct)
  case (1 hs len d i)
  show ?case
  proof (cases "i < len")
    case True
    then have "remapLoop hs len d i ! k = remapLoop hs len (remapBody hs d i) (i + 4) ! k"
      by (subst remapLoop.simps) simp
    also have "\<dots> = remapBody hs d i ! k" using 1 True by simp
    also have "\<dots> = d ! k" using 1(2) by (simp add: remapBody_frame)
    finally show ?thesis .
  next
    case False
    then show ?thesis by (subst remapLoop.simps) simp
  qed
qed

lemma remapLoop_pixel:
  "i + 4 * n + 3 < length d \<Longrightarrow> i + 4 * n < len \<Longrightarrow> c < 4 \<Longrightarrow>
   remapLoop hs len d i ! (i + 4 * n + c) = remapBody hs d (i + 4 * n) ! (i + 4 * n + c)"
proof (induction n arbitrary: d i)
  case 0
  then have "remapLoop hs len d i ! (i + c) = remapLoop hs len (remapBody hs d i) (i + 4) ! (i + c)"
    by (subst remapLoop.simps) simp
  also have "\<dots> = remapBody hs d i ! (i + c)" using 0 by (simp add: remapLoop_below)
  finally show ?case by simp
next
  case (Suc n)
  let ?d = "remapBody hs d i"
  let ?j = "i + 4 + 4 * n"
  have j: "i + 4 * Suc n = ?j" by simp
  have "remapLoop hs len d i ! (?j + c) = remapLoop hs len ?d (i + 4) ! (?j + c)"
    using Suc.prems by (subst remapLoop.simps) simp
  also have "\<dots> = remapBody hs ?d ?j ! (?j + c)"
    using Suc.IH [of "i + 4" ?d] Suc.prems by (simp add: length_remapBody)
  also have "\<dots> = remapBody hs d ?j ! (?j + c)"
    using Suc.prems by (intro remapBody_local) (simp_all add: length_remapBody remapBody_frame)
  finally show ?case unfolding j .
qed

lemma remapPixels_pixel:
  "4 * p + 3 < length data \<Longrightarrow> c < 4 \<Longrightarrow>
   remapPixels data hs ! (4 * p + c) = remapBody hs data (4 * p) ! (4 * p + c)"
  using remapLoop_pixel [of 0 p data "length data" c hs] by (simp add: remapPixels_def)

lemma filterBody_frame:
  "filterBody h d i = Inr d' \<Longrightarrow> length d' = length d \<and> (\<forall>k. k \<noteq> i + 3 \<longrightarrow> d' ! k = d ! k)"
  by (auto simp add: filterBody_def split: option.splits prod.splits if_splits)

lemma filterBody_Some_Inr: "\<exists>d'. filterBody (Some hs) d i = Inr d'"
  by (simp add: filterBody_def split: option.splits prod.splits)

lemma filterBody_local:
  assumes "filterBody h d' i = Inr b'"
    and "length d' = length d" and "\<And>c. c < 4 \<Longrightarrow> d' ! (i + c) = d ! (i + c)"
    and "i + 3 < length d"
  shows "\<exists>b. filterBody h d i = Inr b \<and> b ! (i + 3) = b' ! (i + 3)"
proof -
  have e: "d' ! i = d ! i" "d' ! (i + 1) = d ! (i + 1)" "d' ! (i + 2) = d ! (i + 2)"
    "d' ! (i + 3) = d ! (i + 3)"
    using assms(3) [of 0] assms(3) [of 1] assms(3) [of 2] assms(3) [of 3] by simp_all
  have r: "rd d' i = rd d i" "rd d' (i + 1) = rd d (i + 1)" "rd d' (i + 2) = rd d (i + 2)"
    "rd d' (i + 3) = rd d (i + 3)"
    using e assms(2,4) by (simp_all add: rd_def)
  show ?thesis
    using assms(1) unfolding filterBody_def r using e assms(2,4)
    by (auto simp add: rd_def split: option.splits prod.splits if_splits)
qed

lemma filterLoop_Some_Inr: "\<exists>out. filterLoop (Some hs) len d i = Inr out"
proof (induction "Some hs :: hideSet" len d i rule: filterLoop.induct)
  case (1 len d i)
  obtain d' where d': "filterBody (Some hs) d i = Inr d'"
    using filterBody_Some_Inr by blast
  show ?case
  proof (cases "i < len")
    case True
    with 1 [OF True d'] d' show ?thesis by (subst filterLoop.simps) simp
  next
    case False
    then show ?thesis by (subst filterLoop.simps) simp
  qed
qed

lemma filterLoop_frame:
  "filterLoop h len d i = Inr out \<Longrightarrow>
   length out = length d \<and> (\<forall>k. k < i \<longrightarrow> out ! k = d ! k) \<and>
   (\<forall>k. i mod 4 = 0 \<longrightarrow> k mod 4 \<noteq> 3 \<longrightarrow> out ! k = d ! k)"
proof (induction h len d i rule: filterLoop.induct)
  case (1 h len d i)
  show ?case
  proof (cases "i < len")
    case True
    from 1(2) True obtain d' where d': "filterBody h d i = Inr d'"
      and l: "filterLoop h len d' (i + 4) = Inr out"
      by (subst (asm) filterLoop.simps) (auto split: sum.splits)
    note ih = 1(1) [OF True d' l]
    note fr = filterBody_frame [OF d']
    have a: "length out = length d" using ih fr by simp
    have b: "out ! k = d ! k" if "k < i" for k
      using ih fr that by simp
    have c: "out ! k = d ! k" if "i mod 4 = 0" "k mod 4 \<noteq> 3" for k
    proof -
      have "(i + 4) mod 4 = 0" using that(1) by presburger
      with ih that(2) have "out ! k = d' ! k" by simp
      moreover have "k \<noteq> i + 3" using that by presburger
      ultimately show ?thesis using fr by simp
    qed
    from a b c show ?thesis by blast
  next
    case False
    with 1(2) show ?thesis by (subst (asm) filterLoop.simps) simp
  qed
qed

lemma filterLoop_pixel:
  "filterLoop h len d i = Inr out \<Longrightarrow> i + 4 * n + 3 < length d \<Longrightarrow> i + 4 * n < len \<Longrightarrow>
   \<exists>b. filterBody h d (i + 4 * n) = Inr b \<and> out ! (i + 4 * n + 3) = b ! (i + 4 * n + 3)"
proof (induction n arbitrary: d i)
  case 0
  from 0 obtain d' where d': "filterBody h d i = Inr d'"
    and l: "filterLoop h len d' (i + 4) = Inr out"
    by (subst (asm) filterLoop.simps) (auto split: sum.splits)
  from filterLoop_frame [OF l] have "out ! (i + 3) = d' ! (i + 3)" by simp
  with d' show ?case by simp
next
  case (Suc n)
  let ?j = "i + 4 + 4 * n"
  have j: "i + 4 * Suc n = ?j" by simp
  from Suc.prems obtain d' where d': "filterBody h d i = Inr d'"
    and l: "filterLoop h len d' (i + 4) = Inr out"
    by (subst (asm) filterLoop.simps) (auto split: sum.splits)
  note fr = filterBody_frame [OF d']
  from Suc.IH [OF l] Suc.prems fr obtain b' where b': "filterBody h d' ?j = Inr b'"
    and o: "out ! (?j + 3) = b' ! (?j + 3)" by auto
  have "\<exists>b. filterBody h d ?j = Inr b \<and> b ! (?j + 3) = b' ! (?j + 3)"
  proof (rule filterBody_local [OF b'])
    show "length d' = length d" using fr by simp
    show "d' ! (?j + c) = d ! (?j + c)" for c using fr by simp
    show "?j + 3 < length d" using Suc.prems by simp
  qed
  with o show ?case unfolding j by auto
qed

lemma filterDesigPixels_pixel:
  "filterDesigPixels data h = Inr out \<Longrightarrow> 4 * p + 3 < length data \<Longrightarrow>
   \<exists>b. filterBody h data (4 * p) = Inr b \<and> out ! (4 * p + 3) = b ! (4 * p + 3)"
  using filterLoop_pixel [of h "length data" data 0 out p] by (simp add: filterDesigPixels_def)

lemma filterDesigPixels_frame:
  "filterDesigPixels data h = Inr out \<Longrightarrow>
   length out = length data \<and> (\<forall>k. k mod 4 \<noteq> 3 \<longrightarrow> out ! k = data ! k)"
  using filterLoop_frame [of h "length data" data 0 out] by (simp add: filterDesigPixels_def)

section \<open>Transparent and hidden pixels\<close>

lemma length_remapPixels: "length (remapPixels data hs) = length data"
  by (simp add: remapPixels_def length_remapLoop)

lemma four_cases: "c < 4 \<Longrightarrow> c = 0 \<or> c = 1 \<or> c = 2 \<or> c = (3::nat)"
  by arith

text \<open>
  C7. Both \<open>remapPixels\<close> and \<open>filterDesigPixels\<close> leave a pixel whose alpha byte
  is 0 as it is, in all four channels. (\<open>filterDesigPixels\<close> returns whenever the hide
  set is a \<open>Set\<close>.)
\<close>

theorem transparent_pixels_untouched:
  assumes "4 * p + 3 < length data" and "data ! (4 * p + 3) = 0" and "c < 4"
  shows "remapPixels data hset ! (4 * p + c) = data ! (4 * p + c) \<and>
         (\<forall>out. filterDesigPixels data hset = Inr out \<longrightarrow>
                out ! (4 * p + c) = data ! (4 * p + c)) \<and>
         (hset \<noteq> None \<longrightarrow> (\<exists>out. filterDesigPixels data hset = Inr out))"
proof -
  have a: "rd data (4 * p + 3) = Some 0" using assms(1,2) by (simp add: rd_def)
  have "remapBody hset data (4 * p) = data" using a by (simp add: remapBody_def)
  then have 1: "remapPixels data hset ! (4 * p + c) = data ! (4 * p + c)"
    using remapPixels_pixel [OF assms(1,3), of hset] by simp
  have fb: "filterBody hset data (4 * p) = Inr data" using a by (simp add: filterBody_def)
  have 2: "out ! (4 * p + c) = data ! (4 * p + c)"
    if o: "filterDesigPixels data hset = Inr out" for out
  proof (cases "c = 3")
    case True
    with filterDesigPixels_pixel [OF o assms(1)] fb show ?thesis by simp
  next
    case False
    with assms(3) have "(4 * p + c) mod 4 \<noteq> 3" by presburger
    with filterDesigPixels_frame [OF o] show ?thesis by simp
  qed
  have 3: "\<exists>out. filterDesigPixels data hset = Inr out" if "hset \<noteq> None"
    using that filterLoop_Some_Inr by (auto simp add: filterDesigPixels_def)
  from 1 2 3 show ?thesis by blast
qed

lemma closest_COLOR_MAP_white:
  "closest (map src COLOR_MAP) (255, 255, 255) = (5, Some 39774)"
  by (simp add: closest_def COLOR_MAP_def sqDist_def Let_def)

theorem transparent_pixels_untouched_witness:
  "4 * 0 + 3 < length [0, 128, 0, 0 :: byte] \<and> [0, 128, 0, 0 :: byte] ! (4 * 0 + 3) = 0 \<and>
   (1::nat) < 4 \<and>
   remapPixels [0, 128, 0, 0] (Some {Fin 0}) ! (4 * 0 + 1) = 128 \<and>
   (\<exists>out. filterDesigPixels [0, 128, 0, 0] (Some {Fin 0}) = Inr out \<and> out ! (4 * 0 + 1) = 128)"
  using transparent_pixels_untouched [of 0 "[0, 128, 0, 0]" 1 "Some {Fin 0}"]
  by auto

text \<open>
  C5 as stated fails for a pixel that is far from every palette colour: the white pixel
  is nearest to palette colour 5, at squared distance 39774, and stays opaque when 5 is
  hidden.
\<close>

theorem hidden_far_pixel_counterexample:
  "closest (map src COLOR_MAP) (uint (255 :: byte), uint (255 :: byte), uint (255 :: byte))
     = (5, Some 39774) \<and>
   has {Fin 5} 5 \<and>
   remapPixels [255, 255, 255, 255] (Some {Fin 5}) = [255, 255, 255, 255]"
  by (simp add: closest_COLOR_MAP_white has_def remapPixels_def remapLoop.simps remapBody_def rd_def)

text \<open>
  C5, amended. A non-transparent pixel whose nearest palette colour is in the hide set
  and lies at a squared distance below 12000 gets alpha 0, and its R, G and B bytes are
  left as they are, whether the distance is 0 or not.
\<close>

theorem remapPixels_hidden:
  assumes "4 * p + 3 < length data" and "data ! (4 * p + 3) \<noteq> 0"
    and "closest (map src COLOR_MAP)
           (uint (data ! (4 * p)), uint (data ! (4 * p + 1)), uint (data ! (4 * p + 2)))
         = (bestIdx, Some bestDist)"
    and "bestDist < 12000"
    and "has hs bestIdx"
  shows "remapPixels data (Some hs) ! (4 * p + 3) = 0 \<and>
         remapPixels data (Some hs) ! (4 * p) = data ! (4 * p) \<and>
         remapPixels data (Some hs) ! (4 * p + 1) = data ! (4 * p + 1) \<and>
         remapPixels data (Some hs) ! (4 * p + 2) = data ! (4 * p + 2)"
proof -
  have "remapBody (Some hs) data (4 * p) = data[4 * p + 3 := 0]"
    using assms by (simp add: remapBody_def rd_def)
  then have "remapPixels data (Some hs) ! (4 * p + c) = data[4 * p + 3 := 0] ! (4 * p + c)"
    if "c < 4" for c
    using remapPixels_pixel [OF assms(1) that, of "Some hs"] by simp
  from this [of 0] this [of 1] this [of 2] this [of 3] assms(1) show ?thesis by simp
qed

lemma closest_COLOR_MAP_green:
  "closest (map src COLOR_MAP) (0, 138, 0) = (0, Some 100)"
  by (simp add: closest_def COLOR_MAP_def sqDist_def Let_def)

theorem remapPixels_hidden_witness:
  "4 * 0 + 3 < length [0, 138, 0, 255 :: byte] \<and> [0, 138, 0, 255 :: byte] ! (4 * 0 + 3) \<noteq> 0 \<and>
   closest (map src COLOR_MAP)
     (uint ([0, 138, 0, 255 :: byte] ! (4 * 0)), uint ([0, 138, 0, 255 :: byte] ! (4 * 0 + 1)),
      uint ([0, 138, 0, 255 :: byte] ! (4 * 0 + 2))) = (0, Some 100) \<and>
   (100 :: int) < 12000 \<and> has {Fin 0} 0 \<and>
   remapPixels [0, 138, 0, 255] (Some {Fin 0}) ! (4 * 0 + 3) = 0 \<and>
   remapPixels [0, 138, 0, 255] (Some {Fin 0}) ! (4 * 0 + 1) = 138"
  using remapPixels_hidden [of 0 "[0, 138, 0, 255]" 0 100 "{Fin 0}"]
  by (simp add: closest_COLOR_MAP_green has_def)

section \<open>Recolouring and filtering\<close>

lemma sqDist_zero_iff: "sqDist p c = 0 \<longleftrightarrow> p = c"
proof -
  obtain r g b where p: "p = (r, g, b)" by (cases p) auto
  obtain c0 c1 c2 where c: "c = (c0, c1, c2)" by (cases c) auto
  have "(r - c0) * (r - c0) + (g - c1) * (g - c1) + (b - c2) * (b - c2) = 0
        \<longleftrightarrow> r - c0 = 0 \<and> g - c1 = 0 \<and> b - c2 = 0"
    by (smt (verit) mult_eq_0_iff zero_le_square)
  then show ?thesis by (simp add: sqDist_def p c Let_def)
qed

lemma sqDist_nonneg: "0 \<le> sqDist p c"
  by (cases p; cases c) (simp add: sqDist_def Let_def)

lemma closest_COLOR_MAP:
  "\<exists>k. isClosest (map src COLOR_MAP) p k \<and>
       closest (map src COLOR_MAP) p = (int k, Some (sqDist p (src (COLOR_MAP ! k))))"
proof -
  have "map src COLOR_MAP \<noteq> []" by (simp add: COLOR_MAP_def)
  from closest_isClosest [OF this, of p] obtain k where
    k: "isClosest (map src COLOR_MAP) p k"
    and c: "closest (map src COLOR_MAP) p = (int k, Some (sqDist p (map src COLOR_MAP ! k)))"
    by blast
  from k have "k < length COLOR_MAP" by (simp add: isClosest_def)
  then have "map src COLOR_MAP ! k = src (COLOR_MAP ! k)" by simp
  with k c show ?thesis by auto
qed

lemma remapPixels_visible_pixel:
  assumes "4 * p + 3 < length data" and "data ! (4 * p + 3) \<noteq> 0"
    and "r = uint (data ! (4 * p))" and "g = uint (data ! (4 * p + 1))"
    and "b = uint (data ! (4 * p + 2))"
    and "closest (map src COLOR_MAP) (r, g, b) = (bestIdx, bestDist)"
    and "\<forall>hs. hset = Some hs \<longrightarrow> \<not> has hs bestIdx"
    and "out = remapPixels data hset"
  shows "\<exists>k d d0 d1 d2 s0 s1 s2.
     isClosest (map src COLOR_MAP) (r, g, b) k \<and> bestIdx = int k \<and> bestDist = Some d \<and>
     src (COLOR_MAP ! k) = (s0, s1, s2) \<and> dst (COLOR_MAP ! k) = (d0, d1, d2) \<and>
     d = sqDist (r, g, b) (s0, s1, s2) \<and>
     (d = 0 \<longleftrightarrow> (r, g, b) = (s0, s1, s2)) \<and>
     (\<forall>m<length COLOR_MAP. (r, g, b) = src (COLOR_MAP ! m) \<longrightarrow> m = k \<and> d = 0) \<and>
     (12000 \<le> d \<longrightarrow>
        out ! (4 * p) = data ! (4 * p) \<and> out ! (4 * p + 1) = data ! (4 * p + 1) \<and>
        out ! (4 * p + 2) = data ! (4 * p + 2)) \<and>
     (d = 0 \<longrightarrow>
        out ! (4 * p) = word_of_int d0 \<and> out ! (4 * p + 1) = word_of_int d1 \<and>
        out ! (4 * p + 2) = word_of_int d2) \<and>
     (0 < d \<and> d < 12000 \<longrightarrow>
        out ! (4 * p) = word_of_int
          (js_round (real_of_int r + real_of_int (d0 - s0) * max 0 (1 - sqrt (real_of_int d) / 110))) \<and>
        out ! (4 * p + 1) = word_of_int
          (js_round (real_of_int g + real_of_int (d1 - s1) * max 0 (1 - sqrt (real_of_int d) / 110))) \<and>
        out ! (4 * p + 2) = word_of_int
          (js_round (real_of_int b + real_of_int (d2 - s2) * max 0 (1 - sqrt (real_of_int d) / 110))))"
proof -
  from closest_COLOR_MAP [of "(r, g, b)"] assms(6) obtain k where
    k: "isClosest (map src COLOR_MAP) (r, g, b) k" and bi: "bestIdx = int k"
    and bd: "bestDist = Some (sqDist (r, g, b) (src (COLOR_MAP ! k)))"
    by auto
  obtain s0 s1 s2 where s: "src (COLOR_MAP ! k) = (s0, s1, s2)"
    by (cases "src (COLOR_MAP ! k)") auto
  obtain d0 d1 d2 where d: "dst (COLOR_MAP ! k) = (d0, d1, d2)"
    by (cases "dst (COLOR_MAP ! k)") auto
  define dd where "dd = sqDist (r, g, b) (s0, s1, s2)"
  have nh: "(case hset of None \<Rightarrow> False | Some hs \<Rightarrow> has hs (int k)) = False"
    using assms(7) bi by (cases hset) auto
  have cl: "closest (map src COLOR_MAP)
      (uint (data ! (4 * p)), uint (data ! (4 * p + 1)), uint (data ! (4 * p + 2))) = (int k, Some dd)"
    using assms(3,4,5,6) bi bd s by (simp add: dd_def)
  have body: "remapBody hset data (4 * p) =
     (if dd < 12000 then
        if dd = 0
        then data[4 * p := word_of_int d0, 4 * p + 1 := word_of_int d1, 4 * p + 2 := word_of_int d2]
        else data[4 * p := word_of_int (interp r d0 s0 (blend dd)),
                  4 * p + 1 := word_of_int (interp g d1 s1 (blend dd)),
                  4 * p + 2 := word_of_int (interp b d2 s2 (blend dd))]
      else data)"
  proof -
    have rds: "rd data (4 * p + 3) = Some (data ! (4 * p + 3))"
      "rd data (4 * p) = Some (data ! (4 * p))"
      "rd data (4 * p + 1) = Some (data ! (4 * p + 1))"
      "rd data (4 * p + 2) = Some (data ! (4 * p + 2))"
      using assms(1) by (simp_all add: rd_def)
    show ?thesis
      unfolding remapBody_def rds prod.case option.case cl
      using assms(2) by (simp add: nh s d Let_def assms(3,4,5))
  qed
  have px: "out ! (4 * p + c) = remapBody hset data (4 * p) ! (4 * p + c)" if "c < 4" for c
    using remapPixels_pixel [OF assms(1) that, of hset] assms(8) by simp
  have far: "out ! (4 * p) = data ! (4 * p) \<and> out ! (4 * p + 1) = data ! (4 * p + 1) \<and>
        out ! (4 * p + 2) = data ! (4 * p + 2)" if "12000 \<le> dd"
    using px [of 0] px [of 1] px [of 2] that by (simp add: body)
  have exact: "out ! (4 * p) = word_of_int d0 \<and> out ! (4 * p + 1) = word_of_int d1 \<and>
        out ! (4 * p + 2) = word_of_int d2" if "dd = 0"
    using px [of 0] px [of 1] px [of 2] that assms(1) by (simp add: body)
  have near: "out ! (4 * p) = word_of_int (interp r d0 s0 (blend dd)) \<and>
        out ! (4 * p + 1) = word_of_int (interp g d1 s1 (blend dd)) \<and>
        out ! (4 * p + 2) = word_of_int (interp b d2 s2 (blend dd))" if "0 < dd \<and> dd < 12000"
    using px [of 0] px [of 1] px [of 2] that assms(1) by (simp add: body)
  have z: "dd = 0 \<longleftrightarrow> (r, g, b) = (s0, s1, s2)"
    unfolding dd_def by (rule sqDist_zero_iff)
  have same: "m = k \<and> dd = 0" if m: "m < length COLOR_MAP" and e: "(r, g, b) = src (COLOR_MAP ! m)" for m
  proof -
    have "sqDist (r, g, b) (src (COLOR_MAP ! m)) = 0" using e by (simp add: sqDist_zero_iff)
    moreover have kl: "k < length COLOR_MAP" using k by (simp add: isClosest_def)
    moreover have "sqDist (r, g, b) (src (COLOR_MAP ! k)) \<le> sqDist (r, g, b) (src (COLOR_MAP ! m))"
      using k m kl by (auto simp add: isClosest_def)
    ultimately have "dd \<le> 0" using s by (simp add: dd_def)
    moreover have "0 \<le> dd" unfolding dd_def by (rule sqDist_nonneg)
    ultimately have d0: "dd = 0" by simp
    with z e s have "src (COLOR_MAP ! k) = src (COLOR_MAP ! m)" by simp
    moreover have "distinct (map src COLOR_MAP)" by (simp add: COLOR_MAP_def)
    ultimately have "k = m"
      using m kl by (auto simp add: distinct_conv_nth)
    with d0 show ?thesis by simp
  qed
  show ?thesis
    apply (rule exI [of _ k], rule exI [of _ dd])
    apply (rule exI [of _ d0], rule exI [of _ d1], rule exI [of _ d2])
    apply (rule exI [of _ s0], rule exI [of _ s1], rule exI [of _ s2])
    using k bi bd s d z same far exact near
    by (simp add: dd_def interp_def blend_def)
qed

text \<open>
  C1. For a non-transparent pixel whose classified index is not hidden, with \<open>d\<close> the
  least squared distance to a palette source colour: when \<open>d \<ge> 12000\<close> the R, G and B
  bytes stay; when the pixel equals a source colour (\<open>d = 0\<close>) they become the paired
  destination colour; when \<open>0 < d < 12000\<close> each becomes the rounded value of
  \<open>original + (destination - source) * max 0 (1 - sqrt d / 110)\<close>, stored as a byte.
\<close>

theorem remapPixels_recolor:
  assumes "4 * p + 3 < length data" and "data ! (4 * p + 3) \<noteq> 0"
    and "r = uint (data ! (4 * p))" and "g = uint (data ! (4 * p + 1))"
    and "b = uint (data ! (4 * p + 2))"
    and "closest (map src COLOR_MAP) (r, g, b) = (bestIdx, bestDist)"
    and "\<forall>hs. hset = Some hs \<longrightarrow> \<not> has hs bestIdx"
    and "out = remapPixels data hset"
  shows "\<exists>k d d0 d1 d2 s0 s1 s2.
     isClosest (map src COLOR_MAP) (r, g, b) k \<and> bestIdx = int k \<and> bestDist = Some d \<and>
     src (COLOR_MAP ! k) = (s0, s1, s2) \<and> dst (COLOR_MAP ! k) = (d0, d1, d2) \<and>
     d = sqDist (r, g, b) (s0, s1, s2) \<and>
     (d = 0 \<longleftrightarrow> (r, g, b) = (s0, s1, s2)) \<and>
     (\<forall>m<length COLOR_MAP. (r, g, b) = src (COLOR_MAP ! m) \<longrightarrow> m = k \<and> d = 0) \<and>
     (12000 \<le> d \<longrightarrow>
        out ! (4 * p) = data ! (4 * p) \<and> out ! (4 * p + 1) = data ! (4 * p + 1) \<and>
        out ! (4 * p + 2) = data ! (4 * p + 2)) \<and>
     (d = 0 \<longrightarrow>
        out ! (4 * p) = word_of_int d0 \<and> out ! (4 * p + 1) = word_of_int d1 \<and>
        out ! (4 * p + 2) = word_of_int d2) \<and>
     (0 < d \<and> d < 12000 \<longrightarrow>
        out ! (4 * p) = word_of_int
          (js_round (real_of_int r + real_of_int (d0 - s0) * max 0 (1 - sqrt (real_of_int d) / 110))) \<and>
        out ! (4 * p + 1) = word_of_int
          (js_round (real_of_int g + real_of_int (d1 - s1) * max 0 (1 - sqrt (real_of_int d) / 110))) \<and>
        out ! (4 * p + 2) = word_of_int
          (js_round (real_of_int b + real_of_int (d2 - s2) * max 0 (1 - sqrt (real_of_int d) / 110))))"
  using assms by (rule remapPixels_visible_pixel)

text \<open>
  C6. \<open>filterDesigPixels\<close> returns a buffer of the same length in which every byte is
  the input byte, except that the alpha byte of a pixel is 0 when the pixel is not
  transparent, its nearest designation colour is at a squared distance below 12000 and
  the index of that colour is in the hide set. No R, G or B byte changes.
\<close>

theorem filterDesigPixels_only_alpha:
  "\<exists>out. filterDesigPixels data (Some hs) = Inr out \<and> length out = length data \<and>
     (\<forall>k<length data. out ! k =
        (if k mod 4 = 3 \<and> data ! k \<noteq> 0 \<and>
            (case closest DESIG_COLORS
                    (uint (data ! (k - 3)), uint (data ! (k - 2)), uint (data ! (k - 1))) of
               (bestIdx, Some bestDist) \<Rightarrow> bestDist < 12000 \<and> has hs bestIdx
             | (bestIdx, None) \<Rightarrow> False)
         then 0 else data ! k))"
proof -
  obtain out where o: "filterDesigPixels data (Some hs) = Inr out"
    using filterLoop_Some_Inr [of hs "length data" data 0]
    by (auto simp add: filterDesigPixels_def)
  note fr = filterDesigPixels_frame [OF o]
  have "out ! k =
        (if k mod 4 = 3 \<and> data ! k \<noteq> 0 \<and>
            (case closest DESIG_COLORS
                    (uint (data ! (k - 3)), uint (data ! (k - 2)), uint (data ! (k - 1))) of
               (bestIdx, Some bestDist) \<Rightarrow> bestDist < 12000 \<and> has hs bestIdx
             | (bestIdx, None) \<Rightarrow> False)
         then 0 else data ! k)" if kl: "k < length data" for k
  proof (cases "k mod 4 = 3")
    case False
    with fr show ?thesis by simp
  next
    case True
    then obtain p where k: "k = 4 * p + 3"
      by (metis add.commute mult.commute div_mult_mod_eq)
    have full: "4 * p + 3 < length data" using kl k by simp
    from filterDesigPixels_pixel [OF o full] obtain b where
      b: "filterBody (Some hs) data (4 * p) = Inr b" and ob: "out ! (4 * p + 3) = b ! (4 * p + 3)"
      by blast
    from b full have "b ! (4 * p + 3) =
        (if data ! (4 * p + 3) \<noteq> 0 \<and>
            (case closest DESIG_COLORS
                    (uint (data ! (4 * p)), uint (data ! (4 * p + 1)), uint (data ! (4 * p + 2))) of
               (bestIdx, Some bestDist) \<Rightarrow> bestDist < 12000 \<and> has hs bestIdx
             | (bestIdx, None) \<Rightarrow> False)
         then 0 else data ! (4 * p + 3))"
      by (auto simp add: filterBody_def rd_def split: if_splits prod.splits option.splits)
    with ob True show ?thesis by (simp add: k)
  qed
  with o fr show ?thesis by blast
qed

lemma closest_DESIG_critical:
  "closest DESIG_COLORS (191, 64, 46) = (0, Some 0)"
  by (simp add: closest_def DESIG_COLORS_def sqDist_def Let_def)

theorem filterDesigPixels_only_alpha_witness:
  "\<exists>out. filterDesigPixels [191, 64, 46, 255] (Some {Fin 0}) = Inr out \<and>
     length out = 4 \<and> out ! 0 = 191 \<and> out ! 3 = 0"
proof -
  from filterDesigPixels_only_alpha [of "[191, 64, 46, 255]" "{Fin 0}"] obtain out where
    o: "filterDesigPixels [191, 64, 46, 255] (Some {Fin 0}) = Inr out"
    and l: "length out = length [191, 64, 46, 255 :: byte]"
    and a: "\<forall>k<length [191, 64, 46, 255 :: byte]. out ! k =
        (if k mod 4 = 3 \<and> [191, 64, 46, 255 :: byte] ! k \<noteq> 0 \<and>
            (case closest DESIG_COLORS
                    (uint ([191, 64, 46, 255 :: byte] ! (k - 3)),
                     uint ([191, 64, 46, 255 :: byte] ! (k - 2)),
                     uint ([191, 64, 46, 255 :: byte] ! (k - 1))) of
               (bestIdx, Some bestDist) \<Rightarrow> bestDist < 12000 \<and> has {Fin 0} bestIdx
             | (bestIdx, None) \<Rightarrow> False)
         then 0 else [191, 64, 46, 255 :: byte] ! k)"
    by blast
  from a have "out ! 0 = 191" by simp
  moreover from a [rule_format, of 3] have "out ! 3 = 0"
    by (simp add: closest_DESIG_critical has_def)
  ultimately show ?thesis using o l by simp
qed

lemma sqrt_100: "sqrt 100 = 10"
  by (rule real_sqrt_unique) simp_all

theorem remapPixels_recolor_witness:
  "4 * 0 + 3 < length [0, 138, 0, 255 :: byte] \<and> [0, 138, 0, 255 :: byte] ! (4 * 0 + 3) \<noteq> 0 \<and>
   closest (map src COLOR_MAP) (0, 138, 0) = (0, Some 100) \<and>
   remapPixels [0, 138, 0, 255] None ! (4 * 0) = 47 \<and>
   remapPixels [0, 138, 0, 255] None ! (4 * 0 + 1) = 174 \<and>
   remapPixels [0, 138, 0, 255] None ! (4 * 0 + 2) = 75"
proof -
  from remapPixels_recolor [of 0 "[0, 138, 0, 255]" 0 138 0 0 "Some 100" None
      "remapPixels [0, 138, 0, 255] None"]
  obtain k d d0 d1 d2 s0 s1 s2 where
    k: "0 = int k" and d: "Some (100::int) = Some d"
    and s: "src (COLOR_MAP ! k) = (s0, s1, s2)" and dd: "dst (COLOR_MAP ! k) = (d0, d1, d2)"
    and n: "0 < d \<and> d < 12000 \<longrightarrow>
        remapPixels [0, 138, 0, 255] None ! (4 * 0) = word_of_int
          (js_round (real_of_int 0 + real_of_int (d0 - s0) * max 0 (1 - sqrt (real_of_int d) / 110))) \<and>
        remapPixels [0, 138, 0, 255] None ! (4 * 0 + 1) = word_of_int
          (js_round (real_of_int 138 + real_of_int (d1 - s1) * max 0 (1 - sqrt (real_of_int d) / 110))) \<and>
        remapPixels [0, 138, 0, 255] None ! (4 * 0 + 2) = word_of_int
          (js_round (real_of_int 0 + real_of_int (d2 - s2) * max 0 (1 - sqrt (real_of_int d) / 110)))"
    by (auto simp add: closest_COLOR_MAP_green)
  from k have k0: "k = 0" by simp
  from s dd have sd: "s0 = 0" "s1 = 128" "s2 = 0" "d0 = 52" "d1 = 168" "d2 = 83"
    by (simp_all add: k0 COLOR_MAP_def)
  from d have d100: "d = 100" by simp
  from n show ?thesis
    by (simp add: sd d100 sqrt_100 js_round_def closest_COLOR_MAP_green)
qed

lemma interp_range:
  assumes x: "0 \<le> x" "x \<le> 255" and near: "(x - s) * (x - s) \<le> D"
    and D: "0 < D" "D < 12000"
    and dd: "0 \<le> dd" "dd \<le> 255"
    and up: "s \<le> dd \<longrightarrow> s \<le> 145" and down: "dd < s \<longrightarrow> 110 \<le> s"
  shows "0 \<le> interp x dd s (blend D) \<and> interp x dd s (blend D) \<le> 255"
proof -
  define q where "q = sqrt (real_of_int D)"
  define lam where "lam = q / 110"
  have q0: "0 < q" using D(1) by (simp add: q_def)
  have "real_of_int D < 110\<^sup>2" using D(2) by simp
  then have q110: "q < 110" unfolding q_def by (intro real_less_lsqrt) simp_all
  have lam: "0 \<le> lam" "lam \<le> 1" "q = 110 * lam"
    using q0 q110 by (simp_all add: lam_def)
  have sq: "(real_of_int (x - s))\<^sup>2 \<le> real_of_int D"
    using near by (metis of_int_le_iff of_int_mult power2_eq_square)
  have "\<bar>real_of_int (x - s)\<bar> \<le> q"
    unfolding q_def using sq by (metis real_sqrt_abs real_sqrt_le_iff)
  then have xs: "real_of_int x \<le> real_of_int s + q" "real_of_int s - q \<le> real_of_int x"
    by (simp_all add: abs_le_iff)
  have bl: "blend D = 1 - lam"
    using lam by (simp add: blend_def q_def lam_def)
  define v where "v = real_of_int x + real_of_int (dd - s) * (1 - lam)"
  have v: "0 \<le> v \<and> v \<le> 255"
  proof (cases "s \<le> dd")
    case True
    then have "0 \<le> real_of_int (dd - s) * (1 - lam)" using lam by simp
    then have lo: "0 \<le> v" using x(1) by (simp add: v_def)
    have "v \<le> real_of_int s + 110 * lam + real_of_int (dd - s) * (1 - lam)"
      using xs(1) lam(3) by (simp add: v_def)
    also have "\<dots> = (1 - lam) * real_of_int dd + lam * (real_of_int s + 110)"
      by (simp add: algebra_simps)
    also have "\<dots> \<le> (1 - lam) * 255 + lam * 255"
    proof (rule add_mono)
      show "(1 - lam) * real_of_int dd \<le> (1 - lam) * 255"
        using dd(2) lam by (intro mult_left_mono) simp_all
      show "lam * (real_of_int s + 110) \<le> lam * 255"
        using up True lam by (intro mult_left_mono) simp_all
    qed
    also have "\<dots> = 255" by (simp add: algebra_simps)
    finally show ?thesis using lo by simp
  next
    case False
    then have "real_of_int (dd - s) * (1 - lam) \<le> 0"
      using lam by (simp add: mult_le_0_iff)
    then have hi: "v \<le> 255" using x(2) by (simp add: v_def)
    have "0 = (1 - lam) * 0 + lam * (0::real)" by simp
    also have "\<dots> \<le> (1 - lam) * real_of_int dd + lam * (real_of_int s - 110)"
    proof (rule add_mono)
      show "(1 - lam) * 0 \<le> (1 - lam) * real_of_int dd"
        using dd(1) lam by (intro mult_left_mono) simp_all
      show "lam * 0 \<le> lam * (real_of_int s - 110)"
        using down False lam by (intro mult_left_mono) simp_all
    qed
    also have "\<dots> = real_of_int s - 110 * lam + real_of_int (dd - s) * (1 - lam)"
      by (simp add: algebra_simps)
    also have "\<dots> \<le> v" using xs(2) lam(3) by (simp add: v_def)
    finally show ?thesis using hi by simp
  qed
  have "interp x dd s (blend D) = \<lfloor>v + 1 / 2\<rfloor>"
    by (simp add: interp_def js_round_def bl v_def)
  moreover have "0 \<le> \<lfloor>v + 1 / 2\<rfloor>" using v by simp
  moreover have "\<lfloor>v + 1 / 2\<rfloor> \<le> 255" using v by (simp add: floor_le_iff)
  ultimately show ?thesis by simp
qed

lemma COLOR_MAP_channels:
  assumes "k < length COLOR_MAP"
    and "src (COLOR_MAP ! k) = (s0, s1, s2)" and "dst (COLOR_MAP ! k) = (d0, d1, d2)"
  shows "(0 \<le> d0 \<and> d0 \<le> 255 \<and> (s0 \<le> d0 \<longrightarrow> s0 \<le> 145) \<and> (d0 < s0 \<longrightarrow> 110 \<le> s0)) \<and>
         (0 \<le> d1 \<and> d1 \<le> 255 \<and> (s1 \<le> d1 \<longrightarrow> s1 \<le> 145) \<and> (d1 < s1 \<longrightarrow> 110 \<le> s1)) \<and>
         (0 \<le> d2 \<and> d2 \<le> 255 \<and> (s2 \<le> d2 \<longrightarrow> s2 \<le> 145) \<and> (d2 < s2 \<longrightarrow> 110 \<le> s2))"
proof -
  have "k < 7" using assms(1) by (simp add: COLOR_MAP_def)
  then have "k = 0 \<or> k = 1 \<or> k = 2 \<or> k = 3 \<or> k = 4 \<or> k = 5 \<or> k = 6" by arith
  then show ?thesis using assms(2,3)
    by (elim disjE) (simp_all add: COLOR_MAP_def)
qed

lemma sqDist_channels:
  assumes "D = sqDist (r, g, b) (s0, s1, s2)"
  shows "(r - s0) * (r - s0) \<le> D" "(g - s1) * (g - s1) \<le> D" "(b - s2) * (b - s2) \<le> D"
proof -
  have "0 \<le> (r - s0) * (r - s0)" "0 \<le> (g - s1) * (g - s1)" "0 \<le> (b - s2) * (b - s2)"
    by simp_all
  then show "(r - s0) * (r - s0) \<le> D" "(g - s1) * (g - s1) \<le> D" "(b - s2) * (b - s2) \<le> D"
    unfolding assms sqDist_def by (simp_all add: Let_def)
qed

lemma uint_byte_range: "0 \<le> uint (w :: byte) \<and> uint w \<le> 255"
  using uint_lt2p [of w] by simp

lemma uint_store: "0 \<le> z \<Longrightarrow> z \<le> 255 \<Longrightarrow> uint (word_of_int z :: byte) = z"
  by (simp add: uint_word_of_int)

text \<open>
  C10. In the interpolation branch (\<open>0 < d < 12000\<close>, index not hidden) the rounded
  value computed for each of R, G and B lies in 0..255, so the byte that is stored is
  that value: the store does not wrap.
\<close>

theorem remapPixels_interp_in_range:
  assumes "4 * p + 3 < length data" and "data ! (4 * p + 3) \<noteq> 0"
    and "r = uint (data ! (4 * p))" and "g = uint (data ! (4 * p + 1))"
    and "b = uint (data ! (4 * p + 2))"
    and "closest (map src COLOR_MAP) (r, g, b) = (bestIdx, Some d)"
    and "0 < d" and "d < 12000"
    and "\<forall>hs. hset = Some hs \<longrightarrow> \<not> has hs bestIdx"
    and "src (COLOR_MAP ! nat bestIdx) = (s0, s1, s2)"
    and "dst (COLOR_MAP ! nat bestIdx) = (d0, d1, d2)"
    and "out = remapPixels data hset"
  shows "0 \<le> interp r d0 s0 (blend d) \<and> interp r d0 s0 (blend d) \<le> 255 \<and>
         uint (out ! (4 * p)) = interp r d0 s0 (blend d) \<and>
         0 \<le> interp g d1 s1 (blend d) \<and> interp g d1 s1 (blend d) \<le> 255 \<and>
         uint (out ! (4 * p + 1)) = interp g d1 s1 (blend d) \<and>
         0 \<le> interp b d2 s2 (blend d) \<and> interp b d2 s2 (blend d) \<le> 255 \<and>
         uint (out ! (4 * p + 2)) = interp b d2 s2 (blend d)"
proof -
  from remapPixels_visible_pixel [OF assms(1,2,3,4,5,6,9,12)]
  obtain k d' d0' d1' d2' s0' s1' s2' where
    k: "isClosest (map src COLOR_MAP) (r, g, b) k" and bi: "bestIdx = int k"
    and bd: "Some d = Some d'"
    and s': "src (COLOR_MAP ! k) = (s0', s1', s2')" and d': "dst (COLOR_MAP ! k) = (d0', d1', d2')"
    and dist: "d' = sqDist (r, g, b) (s0', s1', s2')"
    and n: "0 < d' \<and> d' < 12000 \<longrightarrow>
        out ! (4 * p) = word_of_int
          (js_round (real_of_int r + real_of_int (d0' - s0') * max 0 (1 - sqrt (real_of_int d') / 110))) \<and>
        out ! (4 * p + 1) = word_of_int
          (js_round (real_of_int g + real_of_int (d1' - s1') * max 0 (1 - sqrt (real_of_int d') / 110))) \<and>
        out ! (4 * p + 2) = word_of_int
          (js_round (real_of_int b + real_of_int (d2' - s2') * max 0 (1 - sqrt (real_of_int d') / 110)))"
    by blast
  have eqs: "d' = d" "s0' = s0" "s1' = s1" "s2' = s2" "d0' = d0" "d1' = d1" "d2' = d2"
    using bd s' d' assms(10,11) bi by simp_all
  have kl: "k < length COLOR_MAP" using k by (simp add: isClosest_def)
  have sk: "src (COLOR_MAP ! k) = (s0, s1, s2)" and dk: "dst (COLOR_MAP ! k) = (d0, d1, d2)"
    using assms(10,11) bi by simp_all
  note ch = COLOR_MAP_channels [OF kl sk dk]
  note sq = sqDist_channels [OF dist [unfolded eqs]]
  have rr: "0 \<le> r \<and> r \<le> 255" unfolding assms(3) by (rule uint_byte_range)
  have gr: "0 \<le> g \<and> g \<le> 255" unfolding assms(4) by (rule uint_byte_range)
  have br: "0 \<le> b \<and> b \<le> 255" unfolding assms(5) by (rule uint_byte_range)
  have i0: "0 \<le> interp r d0 s0 (blend d) \<and> interp r d0 s0 (blend d) \<le> 255"
    using rr sq(1) assms(7,8) ch by (intro interp_range) simp_all
  have i1: "0 \<le> interp g d1 s1 (blend d) \<and> interp g d1 s1 (blend d) \<le> 255"
    using gr sq(2) assms(7,8) ch by (intro interp_range) simp_all
  have i2: "0 \<le> interp b d2 s2 (blend d) \<and> interp b d2 s2 (blend d) \<le> 255"
    using br sq(3) assms(7,8) ch by (intro interp_range) simp_all
  from n assms(7,8) have o:
    "out ! (4 * p) = word_of_int (interp r d0 s0 (blend d))"
    "out ! (4 * p + 1) = word_of_int (interp g d1 s1 (blend d))"
    "out ! (4 * p + 2) = word_of_int (interp b d2 s2 (blend d))"
    by (simp_all add: eqs interp_def blend_def)
  show ?thesis
    unfolding o using i0 i1 i2 by (simp add: uint_store)
qed

theorem remapPixels_interp_in_range_witness:
  "4 * 0 + 3 < length [0, 138, 0, 255 :: byte] \<and> [0, 138, 0, 255 :: byte] ! (4 * 0 + 3) \<noteq> 0 \<and>
   closest (map src COLOR_MAP) (0, 138, 0) = (0, Some 100) \<and> (0::int) < 100 \<and> (100::int) < 12000 \<and>
   src (COLOR_MAP ! nat 0) = (0, 128, 0) \<and> dst (COLOR_MAP ! nat 0) = (52, 168, 83) \<and>
   interp 138 168 128 (blend 100) = 174 \<and>
   uint (remapPixels [0, 138, 0, 255] None ! (4 * 0 + 1)) = 174"
proof -
  have sd: "src (COLOR_MAP ! nat 0) = (0, 128, 0)" "dst (COLOR_MAP ! nat 0) = (52, 168, 83)"
    by (simp_all add: COLOR_MAP_def)
  have v: "interp 138 168 128 (blend 100) = 174"
    by (simp add: interp_def blend_def js_round_def sqrt_100)
  have "0 \<le> interp 0 52 0 (blend 100) \<and> interp 0 52 0 (blend 100) \<le> 255 \<and>
         uint (remapPixels [0, 138, 0, 255] None ! (4 * 0)) = interp 0 52 0 (blend 100) \<and>
         0 \<le> interp 138 168 128 (blend 100) \<and> interp 138 168 128 (blend 100) \<le> 255 \<and>
         uint (remapPixels [0, 138, 0, 255] None ! (4 * 0 + 1)) = interp 138 168 128 (blend 100) \<and>
         0 \<le> interp 0 83 0 (blend 100) \<and> interp 0 83 0 (blend 100) \<le> 255 \<and>
         uint (remapPixels [0, 138, 0, 255] None ! (4 * 0 + 2)) = interp 0 83 0 (blend 100)"
    by (rule remapPixels_interp_in_range [where bestIdx = 0 and hset = None])
      (simp_all add: closest_def sqDist_def Let_def COLOR_MAP_def)
  then have "uint (remapPixels [0, 138, 0, 255] None ! (4 * 0 + 1)) = interp 138 168 128 (blend 100)"
    by blast
  with v show ?thesis by (simp add: closest_def sqDist_def Let_def COLOR_MAP_def)
qed

section \<open>The tile cache: bound, expiry, recency\<close>

lemma map_delete_keys: "map fst (map_delete c key) = filter (\<lambda>k. k \<noteq> key) (map fst c)"
  by (induction c) (auto simp add: map_delete_def)

lemma distinct_map_delete: "distinct (map fst c) \<Longrightarrow> distinct (map fst (map_delete c key))"
  by (simp add: map_delete_keys)

lemma length_map_delete: "length (map_delete c key) \<le> length c"
  by (simp add: map_delete_def)

lemma map_set_keys:
  "map fst (map_set c key e) = (if key \<in> set (map fst c) then map fst c else map fst c @ [key])"
proof -
  have "map fst (map (\<lambda>kv. if fst kv = key then (key, e) else kv) c) = map fst c"
    by (induction c) auto
  then show ?thesis by (simp add: map_set_def)
qed

lemma distinct_map_set: "distinct (map fst c) \<Longrightarrow> distinct (map fst (map_set c key e))"
  by (simp add: map_set_keys)

lemma length_map_set:
  "length (map_set c key e) = (if key \<in> fst ` set c then length c else Suc (length c))"
  by (simp add: map_set_def)

lemma map_set_fresh: "key \<notin> fst ` set c \<Longrightarrow> map_set c key e = c @ [(key, e)]"
  by (simp add: map_set_def)

lemma map_delete_absent: "key \<notin> fst ` set (map_delete c key)"
  by (auto simp add: map_delete_def)

lemma map_of_map_delete: "map_of (map_delete c key) key = None"
  using map_delete_absent [of key c] by (simp add: map_of_eq_None_iff)

lemma length_evict:
  "distinct (map fst c) \<Longrightarrow> c = (oldest, e) # rest \<Longrightarrow> length (map_delete c oldest) = length rest"
proof -
  assume d: "distinct (map fst c)" and c: "c = (oldest, e) # rest"
  then have "oldest \<notin> fst ` set rest" by auto
  then have "filter (\<lambda>kv. fst kv \<noteq> oldest) rest = rest"
    by (intro filter_True) auto
  then show ?thesis by (simp add: c map_delete_def)
qed

lemma length_setCachedTile:
  assumes "distinct (map fst c)" and "length c \<le> TILE_CACHE_MAX"
  shows "length (setCachedTile now key buf c) \<le> TILE_CACHE_MAX"
proof (cases "length c \<ge> TILE_CACHE_MAX")
  case True
  then have "c \<noteq> []" by (auto simp add: TILE_CACHE_MAX_def)
  then obtain oldest e rest where c: "c = (oldest, e) # rest" by (cases c) auto
  have "length (map_delete c oldest) = length rest" using assms(1) c by (rule length_evict)
  then have "length (map_delete c oldest) < TILE_CACHE_MAX" using assms(2) c by simp
  then have "length (map_set (map_delete c oldest) key \<lparr>buffer = buf, timestamp = now\<rparr>) \<le> TILE_CACHE_MAX"
    by (simp add: length_map_set)
  then show ?thesis using True c by (simp add: setCachedTile_def)
next
  case False
  then show ?thesis by (simp add: setCachedTile_def length_map_set)
qed

lemma distinct_setCachedTile:
  "distinct (map fst c) \<Longrightarrow> distinct (map fst (setCachedTile now key buf c))"
  by (auto simp add: setCachedTile_def Let_def distinct_map_set distinct_map_delete
      split: list.splits)

lemma getCachedTile_cases:
  "getCachedTile now key c =
     (case map_of c key of
        None \<Rightarrow> (None, c)
      | Some e \<Rightarrow>
          if now - timestamp e > TILE_CACHE_TTL
          then (None, map_delete c key)
          else (Some (buffer e), map_delete c key @ [(key, e)]))"
  by (simp add: getCachedTile_def map_get_def map_set_fresh map_delete_absent split: option.splits)

lemma length_getCachedTile:
  assumes "distinct (map fst c)"
  shows "length (snd (getCachedTile now key c)) \<le> length c"
proof (cases "map_of c key")
  case None
  then show ?thesis by (simp add: getCachedTile_cases)
next
  case (Some e)
  then have "(key, e) \<in> set c" by (rule map_of_SomeD)
  then have "length (filter (\<lambda>kv. fst kv \<noteq> key) c) < length c"
    by (intro length_filter_less [of "(key, e)"]) auto
  then show ?thesis using Some length_map_delete [of c key]
    by (simp add: getCachedTile_cases map_delete_def)
qed

lemma distinct_getCachedTile:
  "distinct (map fst c) \<Longrightarrow> distinct (map fst (snd (getCachedTile now key c)))"
  by (auto simp add: getCachedTile_cases map_delete_keys split: option.splits)

lemma runOp_inv:
  assumes "distinct (map fst c) \<and> length c \<le> TILE_CACHE_MAX"
  shows "distinct (map fst (runOp c op)) \<and> length (runOp c op) \<le> TILE_CACHE_MAX"
proof (cases op)
  case (Get key now)
  with assms length_getCachedTile [of c now key] distinct_getCachedTile [of c now key]
  show ?thesis by auto
next
  case (Put key buf now)
  with assms show ?thesis by (simp add: length_setCachedTile distinct_setCachedTile)
qed

lemma foldl_runOp_inv:
  "distinct (map fst c) \<and> length c \<le> TILE_CACHE_MAX \<Longrightarrow>
   distinct (map fst (foldl runOp c ops)) \<and> length (foldl runOp c ops) \<le> TILE_CACHE_MAX"
proof (induction ops arbitrary: c)
  case Nil
  then show ?case by simp
next
  case (Cons op ops)
  from Cons.IH [OF runOp_inv [OF Cons.prems]] show ?case by simp
qed

lemma runOps_inv:
  "distinct (map fst (runOps ops)) \<and> length (runOps ops) \<le> TILE_CACHE_MAX"
  unfolding runOps_def by (rule foldl_runOp_inv) simp

text \<open>
  C4. In every state reached from the empty cache by \<open>get\<close> and \<open>put\<close> operations the
  cache holds at most \<open>TILE_CACHE_MAX = 2000\<close> entries, under distinct keys. In such a
  state \<open>get\<close> returns bytes only for an entry whose age is at most the TTL, and then
  moves that entry to the end of the order (the most recently used place); for an entry
  older than the TTL it returns nothing and deletes the entry; for a key that is absent
  it returns nothing and changes nothing.
\<close>

theorem tileCache_bounded_lazy_expiry:
  "length (runOps ops) \<le> TILE_CACHE_MAX \<and> TILE_CACHE_MAX = 2000 \<and>
   distinct (map fst (runOps ops)) \<and>
   (case map_of (runOps ops) key of
      None \<Rightarrow> getCachedTile now key (runOps ops) = (None, runOps ops)
    | Some e \<Rightarrow>
        (now - timestamp e \<le> TILE_CACHE_TTL \<longrightarrow>
           getCachedTile now key (runOps ops) =
             (Some (buffer e), filter (\<lambda>kv. fst kv \<noteq> key) (runOps ops) @ [(key, e)])) \<and>
        (now - timestamp e > TILE_CACHE_TTL \<longrightarrow>
           getCachedTile now key (runOps ops) =
             (None, filter (\<lambda>kv. fst kv \<noteq> key) (runOps ops)) \<and>
           map_of (snd (getCachedTile now key (runOps ops))) key = None))"
  using runOps_inv [of ops] map_of_map_delete [of "runOps ops" key]
  by (simp add: getCachedTile_cases TILE_CACHE_MAX_def map_delete_def split: option.splits)

theorem tileCache_bounded_lazy_expiry_witness:
  "runOps [Put (1::nat) [7] 0, Put 2 [8] 10, Get 1 20]
     = [(2, \<lparr>buffer = [8], timestamp = 10\<rparr>), (1, \<lparr>buffer = [7], timestamp = 0\<rparr>)] \<and>
   getCachedTile 30 2 (runOps [Put (1::nat) [7] 0, Put 2 [8] 10, Get 1 20])
     = (Some [8], [(1, \<lparr>buffer = [7], timestamp = 0\<rparr>), (2, \<lparr>buffer = [8], timestamp = 10\<rparr>)]) \<and>
   getCachedTile 400000 2 (runOps [Put (1::nat) [7] 0, Put 2 [8] 10, Get 1 20])
     = (None, [(1, \<lparr>buffer = [7], timestamp = 0\<rparr>)])"
proof -
  have r: "runOps [Put (1::nat) [7] 0, Put 2 [8] 10, Get 1 20]
     = [(2, \<lparr>buffer = [8], timestamp = 10\<rparr>), (1, \<lparr>buffer = [7], timestamp = 0\<rparr>)]"
    by (simp add: runOps_def setCachedTile_def getCachedTile_def map_get_def map_set_def
        map_delete_def TILE_CACHE_MAX_def TILE_CACHE_TTL_def)
  from tileCache_bounded_lazy_expiry
      [where ops = "[Put (1::nat) [7] 0, Put 2 [8] 10, Get 1 20]" and key = 2 and now = 30]
    tileCache_bounded_lazy_expiry
      [where ops = "[Put (1::nat) [7] 0, Put 2 [8] 10, Get 1 20]" and key = 2 and now = 400000]
  show ?thesis
    unfolding r by (simp add: TILE_CACHE_TTL_def)
qed

lemma setCachedTile_full_overwrite:
  assumes "length c \<ge> TILE_CACHE_MAX" and "c = (oldest, e0) # rest"
    and "distinct (map fst c)" and "key \<in> fst ` set rest"
  shows "map fst (setCachedTile now key buf c) = map fst rest"
proof -
  have "oldest \<notin> fst ` set rest" using assms(2,3) by auto
  then have "filter (\<lambda>kv. fst kv \<noteq> oldest) rest = rest"
    by (intro filter_True) auto
  then have "map_delete c oldest = rest" by (simp add: assms(2) map_delete_def)
  then have "setCachedTile now key buf c = map_set rest key \<lparr>buffer = buf, timestamp = now\<rparr>"
    using assms(1,2) by (simp add: setCachedTile_def)
  then show ?thesis using assms(4) by (simp add: map_set_keys)
qed

lemma setCachedTile_overwrite_below_capacity:
  assumes "length c < TILE_CACHE_MAX" and "key \<in> fst ` set c"
  shows "map fst (setCachedTile now key buf c) = map fst c"
  using assms by (simp add: setCachedTile_def map_set_keys)

text \<open>
  C2 does not hold at capacity. With \<open>TILE_CACHE_MAX\<close> entries under the keys
  \<open>0, 1, \<dots>\<close> (key 0 the oldest), storing under key 5, which is present, deletes the
  entry of key 0: the size test of \<open>setCachedTile\<close> does not look at the key.
\<close>

theorem setCachedTile_overwrite_at_capacity_evicts:
  "length (map (\<lambda>n. (n, \<lparr>buffer = [], timestamp = 0\<rparr>)) [0..<TILE_CACHE_MAX]) = TILE_CACHE_MAX \<and>
   map_get (map (\<lambda>n. (n, \<lparr>buffer = [], timestamp = 0\<rparr>)) [0..<TILE_CACHE_MAX]) 5
     = Some \<lparr>buffer = [], timestamp = 0\<rparr> \<and>
   map fst (setCachedTile 1 5 [9]
              (map (\<lambda>n. (n, \<lparr>buffer = [], timestamp = 0\<rparr>)) [0..<TILE_CACHE_MAX]))
     = [1..<TILE_CACHE_MAX]"
proof -
  let ?f = "\<lambda>n::nat. (n, \<lparr>buffer = [], timestamp = 0\<rparr>)"
  let ?N = "TILE_CACHE_MAX"
  have n: "5 < ?N" by (simp add: TILE_CACHE_MAX_def)
  have u: "[0..<?N] = 0 # [1..<?N]" using n by (simp add: upt_conv_Cons)
  have c: "map ?f [0..<?N] = (0, \<lparr>buffer = [], timestamp = 0\<rparr>) # map ?f [1..<?N]"
    by (subst u) simp
  have k: "map fst (map ?f xs) = xs" for xs by (induction xs) auto
  have "map fst (setCachedTile 1 5 [9] (map ?f [0..<?N])) = map fst (map ?f [1..<?N])"
  proof (rule setCachedTile_full_overwrite [OF _ c])
    show "?N \<le> length (map ?f [0..<?N])" by simp
    show "distinct (map fst (map ?f [0..<?N]))" by (simp only: k distinct_upt)
    show "5 \<in> fst ` set (map ?f [1..<?N])" using n by (simp add: image_iff)
  qed
  moreover have "map_of (map ?f [0..<?N]) 5 = Some \<lparr>buffer = [], timestamp = 0\<rparr>"
  proof (rule map_of_is_SomeI)
    show "distinct (map fst (map ?f [0..<?N]))" by (simp only: k distinct_upt)
    show "(5, \<lparr>buffer = [], timestamp = 0\<rparr>) \<in> set (map ?f [0..<?N])"
      using n by (simp add: image_iff)
  qed
  ultimately show ?thesis by (simp add: map_get_def comp_def)
qed

section \<open>Query strings: serialising and parsing\<close>

lemma percentDecode_other: "c \<noteq> CHR ''%'' \<Longrightarrow> percentDecode (c # cs) = c # percentDecode cs"
  by (cases cs rule: percentDecode.cases) auto

lemma hexDigitValue_hexDigit: "n < 16 \<Longrightarrow> hexDigitValue (hexDigit n) = Some n"
  by (simp add: hexDigitValue_def hexDigit_def Let_def)

lemma hexDigit_range:
  "n < 16 \<Longrightarrow> (48 \<le> (of_char (hexDigit n) :: nat) \<and> (of_char (hexDigit n) :: nat) \<le> 57) \<or>
     (65 \<le> (of_char (hexDigit n) :: nat) \<and> (of_char (hexDigit n) :: nat) \<le> 70)"
  by (auto simp add: hexDigit_def)

lemma of_char_lt_256: "(of_char c :: nat) < 256"
  by (cases c) (auto simp add: of_char_def)


lemma char_of_of_char_nat: "char_of (of_char c :: nat) = c"
  by simp

lemma decode_encodeByte:
  "percentDecode (map (\<lambda>c. if c = CHR ''+'' then CHR '' '' else c) (encodeByte c @ rest))
   = c # percentDecode (map (\<lambda>c. if c = CHR ''+'' then CHR '' '' else c) rest)"
proof -
  let ?m = "map (\<lambda>c. if c = CHR ''+'' then CHR '' '' else c)"
  let ?n = "of_char c :: nat"
  consider "c = CHR '' ''" | "c \<noteq> CHR '' ''" "isUrlencodedSafe c"
    | "c \<noteq> CHR '' ''" "\<not> isUrlencodedSafe c" by blast
  then show ?thesis
  proof cases
    case 1
    then show ?thesis by (simp add: encodeByte_def percentDecode_other)
  next
    case 2
    then have "c \<noteq> CHR ''+''" "c \<noteq> CHR ''%''"
      by (auto simp add: isUrlencodedSafe_def Let_def)
    with 2 show ?thesis by (simp add: encodeByte_def percentDecode_other)
  next
    case 3
    have d: "?n div 16 < 16" "?n mod 16 < 16" using of_char_lt_256 [of c] by arith+
    have np: "hexDigit k \<noteq> CHR ''+''" if "k < 16" for k
      using hexDigit_range [OF that] by auto
    have "char_of (16 * (?n div 16) + ?n mod 16) = c" by simp
    with 3 d show ?thesis
      by (simp add: encodeByte_def hexDigitValue_hexDigit np)
  qed
qed

lemma decode_encodeComponent_append:
  "percentDecode (map (\<lambda>c. if c = CHR ''+'' then CHR '' '' else c) (encodeComponent s)) = s"
proof (induction s)
  case Nil
  then show ?case by (simp add: encodeComponent_def)
next
  case (Cons c s)
  have "encodeComponent (c # s) = encodeByte c @ encodeComponent s"
    by (simp add: encodeComponent_def)
  with Cons decode_encodeByte [of c "encodeComponent s"] show ?case by simp
qed

lemma decodeComponent_encodeComponent: "decodeComponent (encodeComponent s) = s"
  by (simp add: decodeComponent_def decode_encodeComponent_append)

lemma encodeByte_chars:
  assumes "x \<in> set (encodeByte c)"
  shows "x = CHR ''+'' \<or> isUrlencodedSafe x \<or> x = CHR ''%'' \<or> (\<exists>k<16. x = hexDigit k)"
proof -
  have d: "(of_char c :: nat) div 16 < 16" "(of_char c :: nat) mod 16 < 16"
    using of_char_lt_256 [of c] by arith+
  from assms consider "x = CHR ''+''" | "x = c" "isUrlencodedSafe c" | "x = CHR ''%''"
    | "x = hexDigit ((of_char c :: nat) div 16)" | "x = hexDigit ((of_char c :: nat) mod 16)"
    by (auto simp add: encodeByte_def split: if_splits)
  then show ?thesis using d by cases blast+
qed

lemma hexDigit_not_sep: "k < 16 \<Longrightarrow> hexDigit k \<noteq> CHR ''&'' \<and> hexDigit k \<noteq> CHR ''=''"
  using hexDigit_range [of k] by auto

lemma encodeByte_no_sep: "CHR ''&'' \<notin> set (encodeByte c) \<and> CHR ''='' \<notin> set (encodeByte c)"
proof -
  have "x \<noteq> CHR ''&'' \<and> x \<noteq> CHR ''=''" if "x \<in> set (encodeByte c)" for x
    using encodeByte_chars [OF that] hexDigit_not_sep
    by (auto simp add: isUrlencodedSafe_def Let_def)
  then show ?thesis by blast
qed

lemma encodeComponent_no_sep:
  "CHR ''&'' \<notin> set (encodeComponent s) \<and> CHR ''='' \<notin> set (encodeComponent s)"
  using encodeByte_no_sep by (auto simp add: encodeComponent_def)

lemma split_str_nonempty: "split_str sep s \<noteq> []"
  by (induction s) (auto split: list.splits)

lemma split_str_no_sep: "sep \<notin> set a \<Longrightarrow> split_str sep a = [a]"
  by (induction a) auto

lemma split_str_append: "sep \<notin> set a \<Longrightarrow> split_str sep (a @ sep # b) = a # split_str sep b"
  by (induction a) auto


lemma pairText_no_amp: "CHR ''&'' \<notin> set (pairText nv)"
  using encodeComponent_no_sep by (simp add: pairText_def)

lemma parsePair_pairText: "parsePair (pairText nv) = nv"
proof -
  let ?n = "encodeComponent (fst nv)" and ?v = "encodeComponent (snd nv)"
  have ne: "\<forall>c\<in>set ?n. c \<noteq> CHR ''=''" using encodeComponent_no_sep [of "fst nv"] by auto
  have a: "takeWhile (\<lambda>c. c \<noteq> CHR ''='') (?n @ CHR ''='' # ?v) = ?n"
    using ne by (simp add: takeWhile_append1 takeWhile_tail)
  have b: "dropWhile (\<lambda>c. c \<noteq> CHR ''='') (?n @ CHR ''='' # ?v) = CHR ''='' # ?v"
    using ne by (simp add: dropWhile_append3)
  show ?thesis
    by (simp add: parsePair_def pairText_def a b decodeComponent_encodeComponent)
qed

lemma pairText_nonempty: "pairText nv \<noteq> []"
  by (simp add: pairText_def)

lemma serializeUrlencoded_Cons:
  "serializeUrlencoded (nv # ps) =
     (if ps = [] then pairText nv else pairText nv @ CHR ''&'' # serializeUrlencoded ps)"
  by (cases nv; cases ps) (auto simp add: pairText_def)

lemma split_serializeUrlencoded:
  "ps \<noteq> [] \<Longrightarrow> split_str CHR ''&'' (serializeUrlencoded ps) = map pairText ps"
proof (induction ps)
  case Nil
  then show ?case by simp
next
  case (Cons nv ps)
  show ?case
  proof (cases "ps = []")
    case True
    then show ?thesis
      by (simp add: serializeUrlencoded_Cons split_str_no_sep pairText_no_amp)
  next
    case False
    with Cons.IH show ?thesis
      by (simp add: serializeUrlencoded_Cons split_str_append pairText_no_amp)
  qed
qed

lemma parseUrlencoded_serializeUrlencoded: "parseUrlencoded (serializeUrlencoded ps) = ps"
proof (cases "ps = []")
  case True
  then show ?thesis by (simp add: parseUrlencoded_def)
next
  case False
  have "filter (\<lambda>s. s \<noteq> []) (map pairText ps) = map pairText ps"
    by (intro filter_True) (auto simp add: pairText_nonempty)
  then show ?thesis
    using split_serializeUrlencoded [OF False]
    by (simp add: parseUrlencoded_def comp_def parsePair_pairText)
qed

lemma serializeUrlencoded_empty_iff: "serializeUrlencoded ps = [] \<longleftrightarrow> ps = []"
  by (cases ps) (auto simp add: serializeUrlencoded_Cons pairText_nonempty)

section \<open>The \<open>hide\<close> parameter stays local\<close>

lemma search_delete:
  "search (searchParams_delete u name) =
     (let q = serializeUrlencoded (filter (\<lambda>nv. fst nv \<noteq> name) (searchParamsOf u))
      in if q = [] then [] else CHR ''?'' # q)"
  by (simp add: search_def searchParams_delete_def Let_def)

lemma pathname_delete: "pathname (searchParams_delete u name) = pathname u"
  by (simp add: searchParams_delete_def Let_def)

lemma cleanUrl_classify:
  "cleanUrl (classify normPath encQuery reqUrl) =
     pathname (parseURL normPath encQuery reqUrl) @
     search (searchParams_delete (parseURL normPath encQuery reqUrl) ''hide'')"
  by (simp add: classify_def Let_def pathname_delete)

lemma classify_from_cleanUrl:
  "classify normPath encQuery reqUrl =
     (let cu = cleanUrl (classify normPath encQuery reqUrl);
          tp = ''/mappingapi'' @ cu;
          tile = includes_str tp ''highlight'' \<and> \<not> includes_str tp ''active'' \<and>
                 \<not> includes_str tp ''info'';
          plow = tile \<and> includes_str tp ''VISITED''
      in \<lparr>hideSet = hideSet (classify normPath encQuery reqUrl), cleanUrl = cu, targetPath = tp,
          targetUrl = API_TARGET @ tp,
          isTileReq = tile, isPlowTile = plow, isDesigTile = tile \<and> \<not> plow\<rparr>)"
  by (simp add: classify_def Let_def)

text \<open>
  C8. Two request URLs with the same path and the same query parameters other than
  \<open>hide\<close> (so they differ only in whether \<open>hide\<close> is there and in its value) give the
  same upstream URL and the same cache key, \<open>cleanUrl\<close>; everything derived from the
  request is the same except the hide set. The query that is sent upstream, parsed
  again, is the list of the parameters other than \<open>hide\<close>: no parameter of that name is
  in it.
\<close>

theorem hide_param_not_forwarded:
  assumes "pathname (parseURL normPath encQuery u1) = pathname (parseURL normPath encQuery u2)"
    and "filter (\<lambda>nv. fst nv \<noteq> ''hide'') (searchParamsOf (parseURL normPath encQuery u1))
       = filter (\<lambda>nv. fst nv \<noteq> ''hide'') (searchParamsOf (parseURL normPath encQuery u2))"
  shows "classify normPath encQuery u1
           = (classify normPath encQuery u2)\<lparr>hideSet := hideSet (classify normPath encQuery u1)\<rparr> \<and>
         targetUrl (classify normPath encQuery u1) = targetUrl (classify normPath encQuery u2) \<and>
         cleanUrl (classify normPath encQuery u1) = cleanUrl (classify normPath encQuery u2) \<and>
         (\<exists>q. cleanUrl (classify normPath encQuery u1)
                = pathname (parseURL normPath encQuery u1) @ (if q = [] then [] else CHR ''?'' # q) \<and>
              targetUrl (classify normPath encQuery u1)
                = API_TARGET @ ''/mappingapi'' @ cleanUrl (classify normPath encQuery u1) \<and>
              parseUrlencoded q
                = filter (\<lambda>nv. fst nv \<noteq> ''hide'') (searchParamsOf (parseURL normPath encQuery u1)) \<and>
              ''hide'' \<notin> fst ` set (parseUrlencoded q))"
proof -
  let ?c1 = "classify normPath encQuery u1" and ?c2 = "classify normPath encQuery u2"
  let ?ps = "filter (\<lambda>nv. fst nv \<noteq> ''hide'') (searchParamsOf (parseURL normPath encQuery u1))"
  have cu: "cleanUrl ?c1 = cleanUrl ?c2"
    using assms by (simp add: cleanUrl_classify search_delete)
  have eq: "?c1 = ?c2\<lparr>hideSet := hideSet ?c1\<rparr>"
    by (subst classify_from_cleanUrl, subst (2) classify_from_cleanUrl) (simp add: cu Let_def)
  have a: "cleanUrl ?c1 = pathname (parseURL normPath encQuery u1) @
             (if serializeUrlencoded ?ps = [] then [] else CHR ''?'' # serializeUrlencoded ?ps)"
    by (simp add: cleanUrl_classify search_delete pathname_delete Let_def)
  have b: "targetUrl ?c1 = API_TARGET @ ''/mappingapi'' @ cleanUrl ?c1"
    by (simp add: classify_def Let_def)
  have c: "parseUrlencoded (serializeUrlencoded ?ps) = ?ps"
    by (rule parseUrlencoded_serializeUrlencoded)
  have d: "''hide'' \<notin> fst ` set (parseUrlencoded (serializeUrlencoded ?ps))"
    unfolding c by auto
  have t: "targetUrl ?c1 = targetUrl ?c2"
    by (subst eq) simp
  from eq t cu a b c d show ?thesis by blast
qed

theorem hide_param_not_forwarded_witness:
  "pathname (parseURL (\<lambda>s. s) (\<lambda>s. s) ''/api/highlight?layerName=VISITED&hide=0,1'')
     = pathname (parseURL (\<lambda>s. s) (\<lambda>s. s) ''/api/highlight?layerName=VISITED'') \<and>
   filter (\<lambda>nv. fst nv \<noteq> ''hide'')
     (searchParamsOf (parseURL (\<lambda>s. s) (\<lambda>s. s) ''/api/highlight?layerName=VISITED&hide=0,1''))
     = filter (\<lambda>nv. fst nv \<noteq> ''hide'')
         (searchParamsOf (parseURL (\<lambda>s. s) (\<lambda>s. s) ''/api/highlight?layerName=VISITED'')) \<and>
   searchParams_get
     (searchParamsOf (parseURL (\<lambda>s. s) (\<lambda>s. s) ''/api/highlight?layerName=VISITED&hide=0,1''))
     ''hide'' = Some ''0,1'' \<and>
   targetUrl (classify (\<lambda>s. s) (\<lambda>s. s) ''/api/highlight?layerName=VISITED&hide=0,1'')
     = targetUrl (classify (\<lambda>s. s) (\<lambda>s. s) ''/api/highlight?layerName=VISITED'') \<and>
   cleanUrl (classify (\<lambda>s. s) (\<lambda>s. s) ''/api/highlight?layerName=VISITED&hide=0,1'')
     = cleanUrl (classify (\<lambda>s. s) (\<lambda>s. s) ''/api/highlight?layerName=VISITED'')"
proof -
  have p: "pathname (parseURL (\<lambda>s. s) (\<lambda>s. s) ''/api/highlight?layerName=VISITED&hide=0,1'')
     = pathname (parseURL (\<lambda>s. s) (\<lambda>s. s) ''/api/highlight?layerName=VISITED'')"
    by code_simp
  have f: "filter (\<lambda>nv. fst nv \<noteq> ''hide'')
     (searchParamsOf (parseURL (\<lambda>s. s) (\<lambda>s. s) ''/api/highlight?layerName=VISITED&hide=0,1''))
     = filter (\<lambda>nv. fst nv \<noteq> ''hide'')
         (searchParamsOf (parseURL (\<lambda>s. s) (\<lambda>s. s) ''/api/highlight?layerName=VISITED''))"
    by code_simp
  have g: "searchParams_get
     (searchParamsOf (parseURL (\<lambda>s. s) (\<lambda>s. s) ''/api/highlight?layerName=VISITED&hide=0,1''))
     ''hide'' = Some ''0,1''"
    by code_simp
  from hide_param_not_forwarded [OF p f] p f g show ?thesis by blast
qed

text \<open>
  C3 does not hold for an empty token. \<open>Number('')\<close> is 0, so the trailing comma of
  \<open>hide=1,\<close> puts 0 into the hide set, and a pixel of palette colour 0 is made
  transparent; with \<open>hide=1\<close> it is recoloured and stays opaque.
\<close>

theorem empty_hide_token_hides_category_0:
  "Number [] = Fin 0 \<and>
   hideSet (classify (\<lambda>s. s) (\<lambda>s. s) ''/api/highlight?layerName=VISITED&hide=1,'')
     = Some {Fin 1, Fin 0} \<and>
   hideSet (classify (\<lambda>s. s) (\<lambda>s. s) ''/api/highlight?layerName=VISITED&hide=1'')
     = Some {Fin 1} \<and>
   remapPixels [0, 128, 0, 255] (Some {Fin 1, Fin 0}) = [0, 128, 0, 0] \<and>
   remapPixels [0, 128, 0, 255] (Some {Fin 1}) = [52, 168, 83, 255]"
proof -
  have n: "Number [] = Fin 0" by code_simp
  have a: "hideSet (classify (\<lambda>s. s) (\<lambda>s. s) ''/api/highlight?layerName=VISITED&hide=1,'')
     = Some {Fin 1, Fin 0}" by code_simp
  have b: "hideSet (classify (\<lambda>s. s) (\<lambda>s. s) ''/api/highlight?layerName=VISITED&hide=1'')
     = Some {Fin 1}" by code_simp
  have c: "closest (map src COLOR_MAP) (0, 128, 0) = (0, Some 0)"
    by (simp add: closest_def COLOR_MAP_def sqDist_def Let_def)
  have d: "remapPixels [0, 128, 0, 255] (Some {Fin 1, Fin 0}) = [0, 128, 0, 0]"
    by (simp add: remapPixels_def remapLoop.simps remapBody_def rd_def c has_def)
  have sd: "src (COLOR_MAP ! 0) = (0, 128, 0)" "dst (COLOR_MAP ! 0) = (52, 168, 83)"
    by (simp_all add: COLOR_MAP_def)
  have e: "remapPixels [0, 128, 0, 255] (Some {Fin 1}) = [52, 168, 83, 255]"
    by (simp add: remapPixels_def remapLoop.simps remapBody_def rd_def c has_def sd)
  from n a b d e show ?thesis by blast
qed

text \<open>
  A token that \<open>Number\<close> maps to \<open>NaN\<close> (alphabetic text, for one) is in the set, but no
  palette index equals it: it changes neither transform.
\<close>

lemma has_insert_NaN: "has (insert NaN hs) idx = has hs idx"
  by (simp add: has_def)

lemma remapLoop_insert_NaN:
  "remapLoop (Some (insert NaN hs)) len d i = remapLoop (Some hs) len d i"
proof (induction "Some hs :: hideSet" len d i rule: remapLoop.induct)
  case (1 len d i)
  have b: "remapBody (Some (insert NaN hs)) d i = remapBody (Some hs) d i"
    unfolding remapBody_def option.case has_insert_NaN ..
  show ?case
    using 1 by (subst remapLoop.simps, subst (2) remapLoop.simps) (simp add: b)
qed

lemma filterLoop_insert_NaN:
  "filterLoop (Some (insert NaN hs)) len d i = filterLoop (Some hs) len d i"
proof (induction "Some hs :: hideSet" len d i rule: filterLoop.induct)
  case (1 len d i)
  have b: "filterBody (Some (insert NaN hs)) d i = filterBody (Some hs) d i"
    unfolding filterBody_def option.case has_insert_NaN ..
  show ?case
    using 1 by (subst filterLoop.simps, subst (2) filterLoop.simps) (simp add: b split: sum.splits)
qed

lemma NaN_token_no_effect:
  "remapPixels data (Some (insert NaN hs)) = remapPixels data (Some hs) \<and>
   filterDesigPixels data (Some (insert NaN hs)) = filterDesigPixels data (Some hs)"
  by (simp add: remapPixels_def filterDesigPixels_def remapLoop_insert_NaN filterLoop_insert_NaN)

lemma Number_abc: "Number ''abc'' = NaN"
  by code_simp

section \<open>Transform failure on the miss path\<close>

lemma map_of_map_set: "map_of (map_set c key e) key = Some e"
proof (cases "key \<in> fst ` set c")
  case True
  then have "map_of (map (\<lambda>kv. if fst kv = key then (key, e) else kv) c) key = Some e"
    by (induction c) auto
  with True show ?thesis by (simp add: map_set_def)
next
  case False
  then have "map_of c key = None" by (simp add: map_of_eq_None_iff)
  with False show ?thesis by (simp add: map_set_def map_add_def [symmetric] map_add_Some_iff)
qed

lemma map_get_setCachedTile:
  "map_get (setCachedTile now key buf c) key = Some \<lparr>buffer = buf, timestamp = now\<rparr>"
  by (simp add: setCachedTile_def map_get_def Let_def map_of_map_set)

lemma isTileReq_classify:
  "isPlowTile (classify normPath encQuery reqUrl) \<or> isDesigTile (classify normPath encQuery reqUrl)
   \<Longrightarrow> isTileReq (classify normPath encQuery reqUrl)"
  by (auto simp add: classify_def Let_def)

text \<open>
  C9. On the miss path of a tile request, when upstream answers 200 with an image content
  type and the decode, transform and encode step fails, the response is a 200 whose body
  is the upstream bytes as they came, and the cache holds these bytes under the
  canonical key \<open>cleanUrl\<close>.
\<close>

theorem transform_failure_falls_back:
  assumes "startsWith reqUrl ''/api/''"
    and "ctx = classify normPath encQuery reqUrl"
    and "isPlowTile ctx \<or> isDesigTile ctx"
    and "getCachedTile now1 (cleanUrl ctx) cache = (None, cache1)"
    and "statusCode pr = 200"
    and "includes_str (orElse (contentTypeHeader pr) []) ''image''"
    and "transformTile cd ctx (concat (chunks pr)) = Inl e"
  shows "\<exists>resp cache2.
           handleApi normPath encQuery cd now1 now2 reqUrl (ProxyResponse pr) cache
             = Some (resp, cache2) \<and>
           status resp = 200 \<and> body resp = concat (chunks pr) \<and>
           map_get cache2 (cleanUrl ctx)
             = Some \<lparr>buffer = concat (chunks pr), timestamp = now2\<rparr>"
proof -
  have tile: "isTileReq ctx" using assms(2,3) isTileReq_classify by blast
  let ?cache2 = "setCachedTile now2 (cleanUrl ctx) (concat (chunks pr)) cache1"
  let ?resp = "\<lparr>status = 200,
                 headers = [(''Content-Type'', orElse (contentTypeHeader pr) ''image/png''),
                            (''Access-Control-Allow-Origin'', ''*'')],
                 body = concat (chunks pr)\<rparr>"
  have o: "onProxyRes cd ctx now2 pr cache1 = (?resp, ?cache2)"
    using tile assms(3,5,6,7) by (simp add: onProxyRes_def Let_def)
  have "handleApi normPath encQuery cd now1 now2 reqUrl (ProxyResponse pr) cache
          = Some (onProxyRes cd ctx now2 pr cache1)"
    using assms(1,3,4) unfolding handleApi_def assms(2) [symmetric] Let_def by simp
  with o show ?thesis by (simp add: map_get_setCachedTile)
qed

theorem transform_failure_falls_back_witness:
  "startsWith ''/api/highlight?layerName=VISITED'' ''/api/'' \<and>
   isPlowTile (classify (\<lambda>s. s) (\<lambda>s. s) ''/api/highlight?layerName=VISITED'') \<and>
   cleanUrl (classify (\<lambda>s. s) (\<lambda>s. s) ''/api/highlight?layerName=VISITED'')
     = ''/api/highlight?layerName=VISITED'' \<and>
   getCachedTile 5 ''/api/highlight?layerName=VISITED'' [] = (None, []) \<and>
   includes_str (orElse (Some ''image/png'') []) ''image'' \<and>
   transformTile \<lparr>decode = \<lambda>b. Inl CodecError, encode = \<lambda>w h b. Inr b\<rparr>
     (classify (\<lambda>s. s) (\<lambda>s. s) ''/api/highlight?layerName=VISITED'') (concat [[1, 2], [3]])
     = Inl CodecError \<and>
   (\<exists>resp cache2.
      handleApi (\<lambda>s. s) (\<lambda>s. s) \<lparr>decode = \<lambda>b. Inl CodecError, encode = \<lambda>w h b. Inr b\<rparr> 5 9
        ''/api/highlight?layerName=VISITED''
        (ProxyResponse \<lparr>statusCode = 200, contentTypeHeader = Some ''image/png'',
                         cacheControlHeader = None, chunks = [[1, 2], [3]]\<rparr>) []
        = Some (resp, cache2) \<and>
      status resp = 200 \<and> body resp = [1, 2, 3] \<and>
      map_get cache2 ''/api/highlight?layerName=VISITED''
        = Some \<lparr>buffer = [1, 2, 3], timestamp = 9\<rparr>)"
proof -
  let ?u = "''/api/highlight?layerName=VISITED''"
  let ?cd = "\<lparr>decode = \<lambda>b. Inl CodecError, encode = \<lambda>w h b. Inr b\<rparr>"
  let ?pr = "\<lparr>statusCode = 200, contentTypeHeader = Some ''image/png'',
               cacheControlHeader = None, chunks = [[1, 2], [3 :: byte]]\<rparr>"
  have a: "startsWith ?u ''/api/''" by code_simp
  have b: "isPlowTile (classify (\<lambda>s. s) (\<lambda>s. s) ?u)" by code_simp
  have c: "cleanUrl (classify (\<lambda>s. s) (\<lambda>s. s) ?u) = ?u" by code_simp
  have d: "getCachedTile 5 (cleanUrl (classify (\<lambda>s. s) (\<lambda>s. s) ?u)) [] = (None, [])"
    by (simp add: getCachedTile_def map_get_def)
  have e: "includes_str (orElse (contentTypeHeader ?pr) []) ''image''" by code_simp
  have f: "transformTile ?cd (classify (\<lambda>s. s) (\<lambda>s. s) ?u) (concat (chunks ?pr)) = Inl CodecError"
    using b by (simp add: transformTile_def remapTile_def)
  from transform_failure_falls_back [OF a refl _ d _ e f, of 9] b
  have "\<exists>resp cache2.
      handleApi (\<lambda>s. s) (\<lambda>s. s) ?cd 5 9 ?u (ProxyResponse ?pr) [] = Some (resp, cache2) \<and>
      status resp = 200 \<and> body resp = concat (chunks ?pr) \<and>
      map_get cache2 (cleanUrl (classify (\<lambda>s. s) (\<lambda>s. s) ?u))
        = Some \<lparr>buffer = concat (chunks ?pr), timestamp = 9\<rparr>"
    by simp
  then have g: "\<exists>resp cache2.
      handleApi (\<lambda>s. s) (\<lambda>s. s) ?cd 5 9 ?u (ProxyResponse ?pr) [] = Some (resp, cache2) \<and>
      status resp = 200 \<and> body resp = [1, 2, 3] \<and>
      map_get cache2 ?u = Some \<lparr>buffer = [1, 2, 3], timestamp = 9\<rparr>"
    unfolding c by simp
  have d': "getCachedTile 5 ?u [] = (None, [])" using d unfolding c .
  have e': "includes_str (orElse (Some ''image/png'') []) ''image''" using e by simp
  have f': "transformTile ?cd (classify (\<lambda>s. s) (\<lambda>s. s) ?u) (concat [[1, 2], [3]]) = Inl CodecError"
    using f by simp
  from a b c d' e' f' g show ?thesis by blast
qed

end
